theory Spec2Isabelle
  imports Main
begin

section \<open>Strings, clean names and trie dictionaries\<close>

text \<open>
  A Python \<open>str\<close> is a sequence of Unicode code points, so a string is a list of natural
  numbers and \<open>len\<close> is \<open>length\<close>. \<open>ustr\<close> writes an ASCII literal.
  \<open>str.lower\<close> belongs to the Python runtime, not to the repository: every operation
  that calls it takes it as the parameter \<open>lower\<close>. \<open>lower_basic\<close> is the instance
  used at concrete inputs; it agrees with \<open>str.lower\<close> on ASCII text and on
  LATIN CAPITAL LETTER I WITH DOT ABOVE (code point 304), whose lower-cased form is the
  two code points 105, 775.
\<close>

type_synonym codepoint = nat
type_synonym ustring = "codepoint list"

definition ustr :: "string \<Rightarrow> ustring" where
  "ustr s = map of_char s"

definition LATIN_CAPITAL_LETTER_I_WITH_DOT_ABOVE :: codepoint where
  "LATIN_CAPITAL_LETTER_I_WITH_DOT_ABOVE = 304"

definition lower_cp :: "codepoint \<Rightarrow> ustring" where
  "lower_cp c =
     (if c = 304 then [105, 775]
      else if 65 \<le> c \<and> c \<le> 90 then [c + 32]
      else [c])"

definition lower_basic :: "ustring \<Rightarrow> ustring" where
  "lower_basic s = concat (map lower_cp s)"

text \<open>
  A clean name is \<open>Any | None\<close> in the source. The values the repository stores are
  strings and tuples of strings; \<open>pyobj\<close> has those, integers, and Python's truth
  value of each. \<open>None\<close> is the \<open>None\<close> of \<open>pyobj option\<close>. A clean name that is itself
  a \<open>dict\<close> is outside the model.
\<close>

datatype pyobj = PStr ustring | PInt int | PTuple "pyobj list"

fun truthy :: "pyobj \<Rightarrow> bool" where
  "truthy (PStr s) = (s \<noteq> [])"
| "truthy (PInt i) = (i \<noteq> 0)"
| "truthy (PTuple xs) = (xs \<noteq> [])"

text \<open>
  \<open>keyword_trie_dict\<close> is a nested \<open>dict\<close>. A key is either the marker
  \<open>"_keyword_"\<close>, mapped to a clean name, or a one-character string, mapped to the
  dict of the next level. Python dicts iterate in insertion order and
  \<open>levensthein\<close> depends on that order, so a dict is the list of its items in
  insertion order.
\<close>

datatype key = KW | CH codepoint

datatype item = Kw pyobj | Ch codepoint "item list"

type_synonym trie = "item list"

fun key_of :: "item \<Rightarrow> key" where
  "key_of (Kw v) = KW"
| "key_of (Ch c d) = CH c"

text \<open>\<open>d[char]\<close> for a one-character key; \<open>None\<close> is \<open>char not in d\<close>.\<close>

fun get_ch :: "trie \<Rightarrow> codepoint \<Rightarrow> trie option" where
  "get_ch [] c = None"
| "get_ch (Kw v # d) c = get_ch d c"
| "get_ch (Ch c' sub # d) c = (if c' = c then Some sub else get_ch d c)"

text \<open>\<open>d["_keyword_"]\<close>; \<open>None\<close> is \<open>"_keyword_" not in d\<close>.\<close>

fun get_kw :: "trie \<Rightarrow> pyobj option" where
  "get_kw [] = None"
| "get_kw (Kw v # d) = Some v"
| "get_kw (Ch c sub # d) = get_kw d"

text \<open>\<open>d["_keyword_"] = v\<close>: an existing key keeps its place, a new key goes last.\<close>

fun set_kw :: "trie \<Rightarrow> pyobj \<Rightarrow> trie" where
  "set_kw [] v = [Kw v]"
| "set_kw (Kw w # d) v = Kw v # d"
| "set_kw (Ch c sub # d) v = Ch c sub # set_kw d v"

text \<open>
  The source mutates a child dict in place through a reference. In the model the parent
  is rebuilt with the mutated child under the same key, at the same place.
\<close>

fun set_ch :: "trie \<Rightarrow> codepoint \<Rightarrow> trie \<Rightarrow> trie" where
  "set_ch [] c sub' = []"
| "set_ch (Kw v # d) c sub' = Kw v # set_ch d c sub'"
| "set_ch (Ch c' sub # d) c sub' =
     (if c' = c then Ch c sub' # d else Ch c' sub # set_ch d c sub')"

text \<open>\<open>d.pop(key)\<close> for a key that is present.\<close>

definition dict_pop :: "trie \<Rightarrow> key \<Rightarrow> trie" where
  "dict_pop d k = filter (\<lambda>it. key_of it \<noteq> k) d"

section \<open>The keyword processor\<close>

record keyword_processor =
  white_space_chars :: "codepoint set"
  non_word_boundaries :: "codepoint set"
  keyword_trie_dict :: trie
  case_sensitive :: bool
  terms_in_trie :: int

definition string_digits :: ustring where
  "string_digits = ustr ''0123456789''"

definition string_ascii_letters :: ustring where
  "string_ascii_letters =
     ustr ''abcdefghijklmnopqrstuvwxyzABCDEFGHIJKLMNOPQRSTUVWXYZ''"

text \<open>\<open>__init__\<close>; the white space characters are \<open>. \t \n \a\<close>, space and comma.\<close>

definition init :: "bool \<Rightarrow> keyword_processor" where
  "init cs =
     \<lparr> white_space_chars = set [46, 9, 10, 7, 32, 44],
       non_word_boundaries = set (string_digits @ string_ascii_letters @ ustr ''_''),
       keyword_trie_dict = [],
       case_sensitive = cs,
       terms_in_trie = 0 \<rparr>"

text \<open>\<open>__len__\<close>.\<close>

definition len :: "keyword_processor \<Rightarrow> int" where
  "len kp = terms_in_trie kp"

text \<open>
  The loop shared by \<open>__contains__\<close> and \<open>__getitem__\<close>: follow the characters of the
  word while they are keys, counting them, and stop at the first that is not.
\<close>

fun walk :: "trie \<Rightarrow> ustring \<Rightarrow> nat \<Rightarrow> trie \<times> nat" where
  "walk d [] n = (d, n)"
| "walk d (c # cs) n =
     (case get_ch d c of
        Some sub \<Rightarrow> walk sub cs (n + 1)
      | None \<Rightarrow> (d, n))"

definition contains :: "(ustring \<Rightarrow> ustring) \<Rightarrow> keyword_processor \<Rightarrow> ustring \<Rightarrow> bool" where
  "contains lower kp word0 =
     (let word = (if \<not> case_sensitive kp then lower word0 else word0);
          (current_dict, len_covered) = walk (keyword_trie_dict kp) word 0
      in get_kw current_dict \<noteq> None \<and> len_covered = length word)"

definition getitem :: "(ustring \<Rightarrow> ustring) \<Rightarrow> keyword_processor \<Rightarrow> ustring \<Rightarrow> pyobj option" where
  "getitem lower kp word0 =
     (let word = (if \<not> case_sensitive kp then lower word0 else word0);
          (current_dict, len_covered) = walk (keyword_trie_dict kp) word 0
      in if get_kw current_dict \<noteq> None \<and> len_covered = length word
         then get_kw current_dict else None)"

text \<open>
  \<open>__setitem__\<close>. \<open>set_path\<close> is the loop of \<open>setdefault\<close> calls followed by the test
  \<open>"_keyword_" not in current_dict\<close> and the assignment of the clean name: it returns
  the rebuilt dict and the status.
\<close>

fun set_path :: "trie \<Rightarrow> ustring \<Rightarrow> pyobj \<Rightarrow> trie \<times> bool" where
  "set_path d [] v = (set_kw d v, get_kw d = None)"
| "set_path d (c # cs) v =
     (case get_ch d c of
        Some sub \<Rightarrow> (let (sub', status) = set_path sub cs v in (set_ch d c sub', status))
      | None \<Rightarrow> (let (sub', status) = set_path [] cs v in (d @ [Ch c sub'], status)))"

definition setitem ::
  "(ustring \<Rightarrow> ustring) \<Rightarrow> keyword_processor \<Rightarrow> ustring \<Rightarrow> pyobj option
     \<Rightarrow> bool \<times> keyword_processor" where
  "setitem lower kp keyword0 clean_name0 =
     (let clean_name =
            (if clean_name0 = None \<and> keyword0 \<noteq> [] then Some (PStr keyword0) else clean_name0)
      in if keyword0 \<noteq> [] \<and> (case clean_name of None \<Rightarrow> False | Some v \<Rightarrow> truthy v)
         then
           (let keyword = (if \<not> case_sensitive kp then lower keyword0 else keyword0);
                (d', status) = set_path (keyword_trie_dict kp) keyword (the clean_name)
            in (status,
                kp\<lparr> keyword_trie_dict := d',
                    terms_in_trie := (if status then terms_in_trie kp + 1 else terms_in_trie kp) \<rparr>))
         else (False, kp))"

text \<open>
  \<open>__delitem__\<close>. \<open>collect\<close> is the first loop: it gathers \<open>character_trie_list\<close>
  and ends with \<open>current_dict\<close>, which is \<open>None\<close> after the \<open>break\<close>.
  \<open>prune_step\<close> is one round of the second loop, run over the reversed list: while
  the loop has not hit its \<open>break\<close> it pops the key, and breaks when the dict had more
  than one key; above the break the source touches nothing, and the model rebuilds each
  parent around its mutated child.
\<close>

fun collect :: "trie \<Rightarrow> ustring \<Rightarrow> (key \<times> trie) list \<Rightarrow> (key \<times> trie) list \<times> trie option" where
  "collect d [] acc = (acc, Some d)"
| "collect d (c # cs) acc =
     (case get_ch d c of
        Some sub \<Rightarrow> collect sub cs (acc @ [(CH c, d)])
      | None \<Rightarrow> (acc, None))"

fun prune_step :: "key \<times> trie \<Rightarrow> trie \<times> bool \<Rightarrow> trie \<times> bool" where
  "prune_step (key_to_remove, dict_pointer) (child, broken) =
     (if broken then
        (case key_to_remove of
           CH c \<Rightarrow> (set_ch dict_pointer c child, True)
         | KW \<Rightarrow> (dict_pointer, True))
      else (dict_pop dict_pointer key_to_remove, length dict_pointer \<noteq> 1))"

definition delitem ::
  "(ustring \<Rightarrow> ustring) \<Rightarrow> keyword_processor \<Rightarrow> ustring \<Rightarrow> bool \<times> keyword_processor" where
  "delitem lower kp keyword0 =
     (if keyword0 \<noteq> [] then
        (let keyword = (if \<not> case_sensitive kp then lower keyword0 else keyword0);
             (character_trie_list, current_dict) = collect (keyword_trie_dict kp) keyword []
         in case current_dict of
              None \<Rightarrow> (False, kp)
            | Some d \<Rightarrow>
                if d \<noteq> [] \<and> get_kw d \<noteq> None then
                  (True,
                   kp\<lparr> keyword_trie_dict :=
                         fst (fold prune_step (rev (character_trie_list @ [(KW, d)])) ([], False)),
                       terms_in_trie := terms_in_trie kp - 1 \<rparr>)
                else (False, kp))
      else (False, kp))"

definition add_keyword ::
  "(ustring \<Rightarrow> ustring) \<Rightarrow> keyword_processor \<Rightarrow> ustring \<Rightarrow> pyobj option
     \<Rightarrow> bool \<times> keyword_processor" where
  "add_keyword lower kp keyword clean_name = setitem lower kp keyword clean_name"

definition remove_keyword ::
  "(ustring \<Rightarrow> ustring) \<Rightarrow> keyword_processor \<Rightarrow> ustring \<Rightarrow> bool \<times> keyword_processor" where
  "remove_keyword lower kp keyword = delitem lower kp keyword"

definition get_keyword :: "(ustring \<Rightarrow> ustring) \<Rightarrow> keyword_processor \<Rightarrow> ustring \<Rightarrow> pyobj option" where
  "get_keyword lower kp word = getitem lower kp word"

text \<open>
  \<open>add_keywords_from_dict\<close>. The argument is a dict from clean names to values that
  should be lists of keywords; a value that is not a list raises \<open>AttributeError\<close>.
  The processor is mutated in place, so the result is the exception, if one was raised,
  together with the processor as the call leaves it.
\<close>

datatype py_error = AttributeError | IndexError | RecursionError

datatype pyarg = ArgList "ustring list" | ArgOther pyobj

fun add_keywords_from_dict ::
  "(ustring \<Rightarrow> ustring) \<Rightarrow> keyword_processor \<Rightarrow> (ustring \<times> pyarg) list
     \<Rightarrow> py_error option \<times> keyword_processor" where
  "add_keywords_from_dict lower kp [] = (None, kp)"
| "add_keywords_from_dict lower kp ((clean_name, keywords) # rest) =
     (case keywords of
        ArgOther x \<Rightarrow> (Some AttributeError, kp)
      | ArgList ks \<Rightarrow>
          add_keywords_from_dict lower
            (fold (\<lambda>keyword kp'. snd (add_keyword lower kp' keyword (Some (PStr clean_name)))) ks kp)
            rest)"

text \<open>
  \<open>add_keywords_from_list\<close>; the argument is a list by its type, so the
  \<open>AttributeError\<close> of the source cannot arise.
\<close>

definition add_keywords_from_list ::
  "(ustring \<Rightarrow> ustring) \<Rightarrow> keyword_processor \<Rightarrow> ustring list \<Rightarrow> keyword_processor" where
  "add_keywords_from_list lower kp keyword_list =
     fold (\<lambda>keyword kp'. snd (add_keyword lower kp' keyword None)) keyword_list kp"

section \<open>Fuzzy search\<close>

text \<open>
  \<open>xs[i]\<close> on a Python sequence: indices from \<open>-len(xs)\<close> to \<open>-1\<close> address it
  from its end, and any index outside \<open>-len(xs) .. len(xs) - 1\<close> raises \<open>IndexError\<close>.
  Every subscript of the source is modelled by \<open>py_index\<close>.
\<close>

definition py_index :: "'a list \<Rightarrow> int \<Rightarrow> py_error + 'a" where
  "py_index xs i =
     (if 0 \<le> i \<and> i < int (length xs) then Inr (xs ! nat i)
      else if i < 0 \<and> - int (length xs) \<le> i then Inr (xs ! nat (int (length xs) + i))
      else Inl IndexError)"

text \<open>\<open>get_next_word\<close>: the longest prefix made of non-word-boundary characters.\<close>

definition get_next_word :: "keyword_processor \<Rightarrow> ustring \<Rightarrow> ustring" where
  "get_next_word kp sentence = takeWhile (\<lambda>char. char \<in> non_word_boundaries kp) sentence"

text \<open>
  The first lines of \<open>_levenshtein_rec\<close>, up to the end of the
  \<open>for col in range(1, n_columns)\<close> loop: \<open>lev_col\<close> is one round of the loop and
  \<open>lev_row\<close> the loop, whose result is \<open>new_rows\<close> and the last value of \<open>cost\<close>,
  which stays 0 when the word is empty. \<open>char\<close> is a key of a dict, so it may be
  \<open>"_keyword_"\<close>, which differs from every character of the word.
\<close>

definition lev_col ::
  "key \<Rightarrow> ustring \<Rightarrow> int list \<Rightarrow> nat \<Rightarrow> int list \<times> int \<Rightarrow> py_error + int list \<times> int" where
  "lev_col char word rows col acc =
     (case acc of
        (new_rows, cost) \<Rightarrow>
          (case py_index new_rows (int col - 1) of
             Inl e \<Rightarrow> Inl e
           | Inr left \<Rightarrow>
          (case py_index rows (int col) of
             Inl e \<Rightarrow> Inl e
           | Inr up \<Rightarrow>
          (case py_index rows (int col - 1) of
             Inl e \<Rightarrow> Inl e
           | Inr diag \<Rightarrow>
          (case py_index word (int col - 1) of
             Inl e \<Rightarrow> Inl e
           | Inr c \<Rightarrow>
               (let insert_cost = left + 1;
                    delete_cost = up + 1;
                    replace_cost = diag + (if CH c \<noteq> char then 1 else 0);
                    cost' = min insert_cost (min delete_cost replace_cost)
                in Inr (new_rows @ [cost'], cost')))))))"

definition lev_row :: "key \<Rightarrow> ustring \<Rightarrow> int list \<Rightarrow> py_error + int list \<times> int" where
  "lev_row char word rows =
     (case py_index rows 0 of
        Inl e \<Rightarrow> Inl e
      | Inr first \<Rightarrow>
          fold (\<lambda>col acc. case acc of Inl e \<Rightarrow> Inl e | Inr a \<Rightarrow> lev_col char word rows col a)
               [1..<length word + 1] (Inr ([first + 1], 0)))"

text \<open>
  \<open>stop_crit\<close>: the node has the key \<open>"_keyword_"\<close> or a white space character as key.
\<close>

fun is_stop_key :: "keyword_processor \<Rightarrow> item \<Rightarrow> bool" where
  "is_stop_key kp (Kw v) = True"
| "is_stop_key kp (Ch c sub) = (c \<in> white_space_chars kp)"

definition stop_crit :: "keyword_processor \<Rightarrow> trie \<Rightarrow> bool" where
  "stop_crit kp node = list_ex (is_stop_key kp) node"

text \<open>
  \<open>_levenshtein_rec\<close> is a recursive generator. The model returns the list of its events
  in order: \<open>Inr\<close> for a value it yields and \<open>Inl\<close> for an exception it raises, which
  ends it, so that \<open>until_error\<close> cuts the events of the \<open>yield from\<close> loop after the
  first exception. Each level of the recursion holds an interpreter frame while a deeper
  level runs, and Python raises \<open>RecursionError\<close> instead of creating a frame beyond
  its recursion limit: \<open>limit\<close> is the greatest \<open>depth\<close> at which a frame of
  \<open>_levenshtein_rec\<close> can still be created, that is the recursion limit of the
  interpreter less the frames in use when the search starts. Called on the item
  \<open>("_keyword_", clean_name)\<close> the generator computes its row and yields nothing,
  because the clean name is not a dict.
\<close>

fun until_error :: "(py_error + 'a) list \<Rightarrow> (py_error + 'a) list" where
  "until_error [] = []"
| "until_error (Inl e # events) = [Inl e]"
| "until_error (Inr x # events) = Inr x # until_error events"

fun levenshtein_rec ::
  "nat \<Rightarrow> keyword_processor \<Rightarrow> item \<Rightarrow> ustring \<Rightarrow> int list \<Rightarrow> int \<Rightarrow> nat
     \<Rightarrow> (py_error + trie \<times> int \<times> nat) list" where
  "levenshtein_rec limit kp (Kw v) word rows max_cost depth =
     (if limit < depth then [Inl RecursionError]
      else case lev_row KW word rows of
             Inl e \<Rightarrow> [Inl e]
           | Inr r \<Rightarrow> [])"
| "levenshtein_rec limit kp (Ch char node) word rows max_cost depth =
     (if limit < depth then [Inl RecursionError]
      else case lev_row (CH char) word rows of
             Inl e \<Rightarrow> [Inl e]
           | Inr (new_rows, cost) \<Rightarrow>
               if last new_rows \<le> max_cost \<and> stop_crit kp node then [Inr (node, cost, depth)]
               else if min_list new_rows \<le> max_cost then
                 until_error
                   (concat (map (\<lambda>it. levenshtein_rec limit kp it word new_rows max_cost (depth + 1))
                              node))
               else [])"

definition levensthein ::
  "nat \<Rightarrow> keyword_processor \<Rightarrow> ustring \<Rightarrow> int \<Rightarrow> trie \<Rightarrow> (py_error + trie \<times> int \<times> nat) list" where
  "levensthein limit kp word max_cost start_node0 =
     (let start_node = (if start_node0 = [] then keyword_trie_dict kp else start_node0);
          rows = map int [0..<length word + 1]
      in until_error
           (concat (map (\<lambda>it. levenshtein_rec limit kp it word rows max_cost 1) start_node)))"

text \<open>
  \<open>next(generator, default)\<close>: the first event of the generator, the default when it
  ends without one.
\<close>

fun next_or :: "(py_error + 'a) list \<Rightarrow> 'a \<Rightarrow> py_error + 'a" where
  "next_or [] dflt = Inr dflt"
| "next_or (Inr x # events) dflt = Inr x"
| "next_or (Inl e # events) dflt = Inl e"


section \<open>Extraction\<close>

text \<open>
  \<open>get_index_mapping\<close>: the loop appends the index of every character once, and once
  more before that for LATIN CAPITAL LETTER I WITH DOT ABOVE.
\<close>

definition get_index_mapping :: "ustring \<Rightarrow> bool \<Rightarrow> nat list option" where
  "get_index_mapping sentence case_sens =
     (if case_sens \<or> LATIN_CAPITAL_LETTER_I_WITH_DOT_ABOVE \<notin> set sentence then None
      else Some (fold (\<lambda>(idx, char) offsets.
                         (if char = LATIN_CAPITAL_LETTER_I_WITH_DOT_ABOVE
                          then offsets @ [idx] else offsets) @ [idx])
                      (enumerate 0 sentence) []))"

definition get_span_indices :: "nat \<Rightarrow> nat \<Rightarrow> nat list option \<Rightarrow> py_error + (nat \<times> nat)" where
  "get_span_indices start_idx end_idx index_mapping =
     (case index_mapping of
        None \<Rightarrow> Inr (start_idx, end_idx)
      | Some im \<Rightarrow>
          (case py_index im (int start_idx) of
             Inl e \<Rightarrow> Inl e
           | Inr a \<Rightarrow>
               (case py_index im (int end_idx - 1) of
                  Inl e \<Rightarrow> Inl e
                | Inr b \<Rightarrow> Inr (a, b + 1))))"

text \<open>
  The local variables of \<open>extract_keywords\<close>. The source binds
  \<open>longest_sequence_found\<close>, \<open>is_longer_seq_found\<close>, \<open>current_dict_continued\<close> and
  \<open>idy\<close> before it reads them, so their initial values in the model are never read.
\<close>

record scan_state =
  keywords_extracted :: "(pyobj \<times> nat \<times> nat) list"
  current_dict :: trie
  sequence_start_pos :: nat
  sequence_end_pos :: nat
  reset_current_dict :: bool
  idx :: nat
  curr_cost :: int
  longest_sequence_found :: "pyobj option"
  is_longer_seq_found :: bool
  current_dict_continued :: trie
  idy :: nat

datatype 'a flow = Continue 'a | Break 'a

text \<open>
  One round of the inner \<open>while idy < sentence_len\<close> loop. In the fuzzy branch the
  source adds \<open>len(next_word) - 1\<close> to \<open>idy\<close>, breaks if the search found nothing, and
  adds 1 otherwise; \<open>idy\<close> is at least 1 in this loop, so the subtraction on natural
  numbers is exact. An exception of \<open>sentence[idy]\<close> or of the fuzzy search ends the
  round with \<open>Inl\<close>.
\<close>

definition inner_body ::
  "nat \<Rightarrow> keyword_processor \<Rightarrow> ustring \<Rightarrow> scan_state \<Rightarrow> py_error + scan_state flow" where
  "inner_body limit kp sentence st =
     (case py_index sentence (int (idy st)) of
        Inl e \<Rightarrow> Inl e
      | Inr inner_char \<Rightarrow>
          (let st1 = (if inner_char \<notin> non_word_boundaries kp \<and> get_kw (current_dict_continued st) \<noteq> None
                      then st\<lparr> longest_sequence_found := get_kw (current_dict_continued st),
                               sequence_end_pos := idy st,
                               is_longer_seq_found := True \<rparr>
                      else st)
           in case get_ch (current_dict_continued st1) inner_char of
                Some sub \<Rightarrow> Inr (Continue (st1\<lparr> current_dict_continued := sub, idy := idy st1 + 1 \<rparr>))
              | None \<Rightarrow>
                  if curr_cost st1 > 0 then
                    (let next_word = get_next_word kp (drop (idy st1) sentence)
                     in case next_or (levensthein limit kp next_word (curr_cost st1)
                                        (current_dict_continued st1))
                                     ([], 0, 0) of
                          Inl e \<Rightarrow> Inl e
                        | Inr (node, cost, depth) \<Rightarrow>
                            (let st2 = st1\<lparr> current_dict_continued := node,
                                           curr_cost := curr_cost st1 - cost,
                                           idy := idy st1 + length next_word - 1 \<rparr>
                             in if node = [] then Inr (Break st2)
                                else Inr (Continue (st2\<lparr> idy := idy st2 + 1 \<rparr>))))
                  else Inr (Break st1)))"


text \<open>
  Every node the fuzzy search yields lies strictly below the node it started from and is
  not empty; this is what makes the inner loop terminate when it does not advance.
\<close>

lemma set_until_error: "set (until_error events) \<subseteq> set events"
  by (induction events rule: until_error.induct) auto

lemma levenshtein_rec_below:
  "Inr (node, c, d) \<in> set (levenshtein_rec limit kp it word rows max_cost depth) \<Longrightarrow>
     size_list size node < size it \<and> node \<noteq> []"
proof (induction limit kp it word rows max_cost depth rule: levenshtein_rec.induct)
  case (1 limit kp v word rows max_cost depth)
  then show ?case by (auto split: if_splits sum.splits)
next
  case (2 limit kp char sub word rows max_cost depth)
  from "2.prems" have lim: "\<not> limit < depth" by (auto split: if_splits)
  with "2.prems" obtain new_rows cost where lr: "lev_row (CH char) word rows = Inr (new_rows, cost)"
    by (cases "lev_row (CH char) word rows") auto
  show ?case
  proof (cases "last new_rows \<le> max_cost \<and> stop_crit kp sub")
    case True
    with "2.prems" lr lim have "node = sub" by simp
    moreover from True have "sub \<noteq> []" by (auto simp: stop_crit_def)
    ultimately show ?thesis by simp
  next
    case False
    show ?thesis
    proof (cases "min_list new_rows \<le> max_cost")
      case True
      with False "2.prems" lr lim
      have "Inr (node, c, d) \<in> set (until_error
              (concat (map (\<lambda>it. levenshtein_rec limit kp it word new_rows max_cost (depth + 1)) sub)))"
        by (auto split: if_splits)
      with set_until_error obtain it where it: "it \<in> set sub"
        and m: "Inr (node, c, d) \<in> set (levenshtein_rec limit kp it word new_rows max_cost (depth + 1))"
        by fastforce
      from "2.IH"[OF lim lr refl False True it m]
      have "size_list size node < size it" and ne: "node \<noteq> []" by simp_all
      with it have "size_list size node < size_list size sub"
        by (meson size_list_estimation)
      with ne show ?thesis by simp
    next
      case f: False
      with False "2.prems" lr lim show ?thesis by (auto split: if_splits)
    qed
  qed
qed

lemma levensthein_below:
  assumes "Inr (node, c, d) \<in> set (levensthein limit kp word max_cost start)"
  shows "node \<noteq> [] \<and> (start \<noteq> [] \<longrightarrow> size_list size node < size_list size start)"
proof -
  let ?start = "if start = [] then keyword_trie_dict kp else start"
  from assms set_until_error obtain it where it: "it \<in> set ?start"
    and m: "Inr (node, c, d) \<in> set (levenshtein_rec limit kp it word (map int [0..<length word + 1]) max_cost 1)"
    unfolding levensthein_def Let_def by fastforce
  from levenshtein_rec_below[OF m] have a: "size_list size node < size it" and ne: "node \<noteq> []"
    by simp_all
  from a it have "size_list size node < size_list size ?start"
    by (meson size_list_estimation)
  with ne show ?thesis by auto
qed

lemma next_or_cases:
  "next_or events dflt = Inr x \<Longrightarrow> x = dflt \<or> Inr x \<in> set events"
  by (induction events dflt rule: next_or.induct) auto

definition inner_measure :: "scan_state \<Rightarrow> nat \<times> nat" where
  "inner_measure st =
     ((if current_dict_continued st = [] then 1 else 0), size_list size (current_dict_continued st))"

lemma inner_body_progress:
  assumes "inner_body limit kp sentence st = Inr (Continue st')"
  shows "idy st < idy st' \<or>
         (idy st' = idy st \<and> (inner_measure st', inner_measure st) \<in> less_than <*lex*> less_than)"
proof -
  from assms obtain ic where ic: "py_index sentence (int (idy st)) = Inr ic"
    by (cases "py_index sentence (int (idy st))") (auto simp: inner_body_def)
  let ?st1 = "if ic \<notin> non_word_boundaries kp \<and> get_kw (current_dict_continued st) \<noteq> None
              then st\<lparr> longest_sequence_found := get_kw (current_dict_continued st),
                       sequence_end_pos := idy st, is_longer_seq_found := True \<rparr>
              else st"
  have i1: "idy ?st1 = idy st" and c1: "current_dict_continued ?st1 = current_dict_continued st"
    by simp_all
  show ?thesis
  proof (cases "get_ch (current_dict_continued st) ic")
    case (Some sub)
    with assms ic have "idy st' = idy st + 1"
      by (auto simp: inner_body_def Let_def split: if_splits)
    then show ?thesis by simp
  next
    case None
    let ?nw = "get_next_word kp (drop (idy st) sentence)"
    let ?ev = "levensthein limit kp ?nw (curr_cost ?st1) (current_dict_continued st)"
    from assms ic None obtain node cost depth where r: "next_or ?ev ([], 0, 0) = Inr (node, cost, depth)"
      by (cases "next_or ?ev ([], 0, 0)")
         (auto simp: inner_body_def Let_def split: if_splits)
    from assms ic None r have pos: "curr_cost ?st1 > 0" and ne: "node \<noteq> []"
      and st': "idy st' = idy st + length ?nw - 1 + 1"
               "current_dict_continued st' = node"
      by (auto simp: inner_body_def Let_def split: if_splits)
    from next_or_cases[OF r] ne
    have "Inr (node, cost, depth) \<in> set ?ev" by auto
    from levensthein_below[OF this]
    have below: "current_dict_continued st \<noteq> [] \<Longrightarrow>
                   size_list size node < size_list size (current_dict_continued st)"
      by simp
    have "idy st \<le> idy st'" using st'(1) by simp
    moreover have "(inner_measure st', inner_measure st) \<in> less_than <*lex*> less_than"
      using ne below st'(2) by (auto simp: inner_measure_def)
    ultimately show ?thesis by (cases "idy st < idy st'") auto
  qed
qed

text \<open>
  The inner loop with its \<open>else\<close> clause, which runs when the loop ends without
  \<open>break\<close>.
\<close>

function inner_loop ::
  "nat \<Rightarrow> keyword_processor \<Rightarrow> ustring \<Rightarrow> scan_state \<Rightarrow> py_error + scan_state" where
  "inner_loop limit kp sentence st =
     (if idy st < length sentence then
        (case inner_body limit kp sentence st of
           Inl e \<Rightarrow> Inl e
         | Inr (Continue st') \<Rightarrow> inner_loop limit kp sentence st'
         | Inr (Break st') \<Rightarrow> Inr st')
      else
        Inr (if get_kw (current_dict_continued st) \<noteq> None
             then st\<lparr> longest_sequence_found := get_kw (current_dict_continued st),
                      sequence_end_pos := idy st,
                      is_longer_seq_found := True \<rparr>
             else st))"
  by pat_completeness auto
termination
proof (relation "inv_image (less_than <*lex*> less_than <*lex*> less_than)
                   (\<lambda>(limit, kp, sentence, st). (length sentence - idy st, inner_measure st))")
  show "wf (inv_image (less_than <*lex*> less_than <*lex*> less_than)
              (\<lambda>(limit, kp, sentence, st). (length sentence - idy st, inner_measure st)))"
    by (intro wf_inv_image wf_lex_prod wf_less_than)
next
  fix limit :: nat and kp :: keyword_processor and sentence :: ustring and st st' :: scan_state
    and x :: "scan_state flow"
  assume lt: "idy st < length sentence" and b: "inner_body limit kp sentence st = Inr x"
    and x: "x = Continue st'"
  from inner_body_progress[OF b[unfolded x]] lt
  show "((limit, kp, sentence, st'), (limit, kp, sentence, st))
          \<in> inv_image (less_than <*lex*> less_than <*lex*> less_than)
               (\<lambda>(limit, kp, sentence, st). (length sentence - idy st, inner_measure st))"
    by (cases "inner_measure st'"; cases "inner_measure st") auto
qed

declare inner_loop.simps [simp del]


text \<open>
  The loop that skips to the end of the current word, started at \<open>idx + 1\<close>; it
  returns the final \<open>idy\<close>.
\<close>

function skip_word :: "keyword_processor \<Rightarrow> ustring \<Rightarrow> nat \<Rightarrow> py_error + nat" where
  "skip_word kp sentence i =
     (if i < length sentence then
        (case py_index sentence (int i) of
           Inl e \<Rightarrow> Inl e
         | Inr char \<Rightarrow>
             if char \<notin> non_word_boundaries kp then Inr i
             else skip_word kp sentence (i + 1))
      else Inr i)"
  by pat_completeness auto
termination
  by (relation "measure (\<lambda>(kp, sentence, i). length sentence - i)") auto

declare skip_word.simps [simp del]

text \<open>
  The body of the outer \<open>while idx < sentence_len\<close> loop, in two parts. \<open>match_step\<close>
  is the \<open>if / elif / elif / else\<close> on the current character: at a word boundary where
  the current dict has a terminal or continues with the character, \<open>find_longest\<close>
  looks for the longest sequence from there and \<open>emit_longest\<close> resets the current
  dict and appends what was found. \<open>end_step\<close> is the check
  at the end of the sentence, the increment of \<open>idx\<close> and the reset of
  \<open>sequence_start_pos\<close>. An exception ends the call.
\<close>

definition find_longest ::
  "nat \<Rightarrow> keyword_processor \<Rightarrow> ustring \<Rightarrow> codepoint \<Rightarrow> scan_state \<Rightarrow> py_error + scan_state" where
  "find_longest limit kp sentence char st =
     (let cd = current_dict st;
          st1 = st\<lparr> longest_sequence_found := None, is_longer_seq_found := False \<rparr>;
          st2 = (if get_kw cd \<noteq> None
                 then st1\<lparr> longest_sequence_found := get_kw cd, sequence_end_pos := idx st \<rparr>
                 else st1)
      in case get_ch cd char of
           Some sub \<Rightarrow>
             (case inner_loop limit kp sentence
                     (st2\<lparr> current_dict_continued := sub, idy := idx st + 1 \<rparr>) of
                Inl e \<Rightarrow> Inl e
              | Inr st' \<Rightarrow>
                  Inr (if is_longer_seq_found st' then st'\<lparr> idx := sequence_end_pos st' \<rparr>
                       else st'))
         | None \<Rightarrow> Inr st2)"

definition emit_longest ::
  "keyword_processor \<Rightarrow> int \<Rightarrow> nat list option \<Rightarrow> scan_state \<Rightarrow> py_error + scan_state" where
  "emit_longest kp max_cost index_mapping st3 =
     (let st4 = st3\<lparr> current_dict := keyword_trie_dict kp \<rparr>
      in case longest_sequence_found st4 of
           Some v \<Rightarrow>
             if truthy v then
               (case get_span_indices (sequence_start_pos st4) (idx st4) index_mapping of
                  Inl e \<Rightarrow> Inl e
                | Inr (a, b) \<Rightarrow>
                    Inr (st4\<lparr> keywords_extracted := keywords_extracted st4 @ [(v, a, b)],
                              curr_cost := max_cost,
                              reset_current_dict := True \<rparr>))
             else Inr (st4\<lparr> reset_current_dict := True \<rparr>)
         | None \<Rightarrow> Inr (st4\<lparr> reset_current_dict := True \<rparr>))"

definition match_step ::
  "nat \<Rightarrow> keyword_processor \<Rightarrow> ustring \<Rightarrow> int \<Rightarrow> nat list option \<Rightarrow> scan_state
     \<Rightarrow> py_error + scan_state" where
  "match_step limit kp sentence max_cost index_mapping st =
     (case py_index sentence (int (idx st)) of
        Inl e \<Rightarrow> Inl e
      | Inr char \<Rightarrow>
          (let cd = current_dict st
           in if char \<notin> non_word_boundaries kp then
                (if get_kw cd \<noteq> None \<or> get_ch cd char \<noteq> None
                 then (case find_longest limit kp sentence char st of
                         Inl e \<Rightarrow> Inl e
                       | Inr st3 \<Rightarrow> emit_longest kp max_cost index_mapping st3)
                 else Inr (st\<lparr> current_dict := keyword_trie_dict kp, reset_current_dict := True \<rparr>))
              else
                (case get_ch cd char of
                   Some sub \<Rightarrow> Inr (st\<lparr> current_dict := sub \<rparr>)
                 | None \<Rightarrow>
                     if curr_cost st > 0 then
                       (let next_word = get_next_word kp (drop (idx st) sentence)
                        in case next_or (levensthein limit kp next_word (curr_cost st) cd)
                                        (keyword_trie_dict kp, 0, 0) of
                             Inl e \<Rightarrow> Inl e
                           | Inr (node, cost, depth) \<Rightarrow>
                               Inr (st\<lparr> current_dict := node,
                                         curr_cost := curr_cost st - cost,
                                         idx := idx st + length next_word - 1 \<rparr>))
                     else
                       (case skip_word kp sentence (idx st + 1) of
                          Inl e \<Rightarrow> Inl e
                        | Inr i \<Rightarrow>
                            Inr (st\<lparr> current_dict := keyword_trie_dict kp,
                                      reset_current_dict := True,
                                      idy := i,
                                      idx := i \<rparr>)))))"

definition end_step ::
  "ustring \<Rightarrow> nat list option \<Rightarrow> scan_state \<Rightarrow> py_error + scan_state" where
  "end_step sentence index_mapping st =
     (case (if idx st + 1 \<ge> length sentence then
              (case get_kw (current_dict st) of
                 Some sequence_found \<Rightarrow>
                   (case get_span_indices (sequence_start_pos st) (length sentence) index_mapping of
                      Inl e \<Rightarrow> Inl e
                    | Inr (a, b) \<Rightarrow>
                        Inr (st\<lparr> keywords_extracted :=
                                     keywords_extracted st @ [(sequence_found, a, b)] \<rparr>))
               | None \<Rightarrow> Inr st)
            else Inr st) of
        Inl e \<Rightarrow> Inl e
      | Inr st1 \<Rightarrow>
          (let st2 = st1\<lparr> idx := idx st1 + 1 \<rparr>
           in Inr (if reset_current_dict st2
                   then st2\<lparr> reset_current_dict := False, sequence_start_pos := idx st2 \<rparr>
                   else st2)))"

definition outer_body ::
  "nat \<Rightarrow> keyword_processor \<Rightarrow> ustring \<Rightarrow> int \<Rightarrow> nat list option \<Rightarrow> scan_state
     \<Rightarrow> py_error + scan_state" where
  "outer_body limit kp sentence max_cost index_mapping st =
     (case match_step limit kp sentence max_cost index_mapping st of
        Inl e \<Rightarrow> Inl e
      | Inr st' \<Rightarrow> end_step sentence index_mapping st')"


text \<open>
  What the inner loop leaves alone, and where it puts \<open>sequence_end_pos\<close> when it
  reports a longer sequence: at a position it has visited.
\<close>

lemma inner_body_frame:
  assumes "inner_body limit kp sentence st = Inr (Continue st') \<or>
           inner_body limit kp sentence st = Inr (Break st')"
  shows "idx st' = idx st \<and> sequence_start_pos st' = sequence_start_pos st \<and>
         keywords_extracted st' = keywords_extracted st \<and> current_dict st' = current_dict st \<and>
         reset_current_dict st' = reset_current_dict st \<and>
         (is_longer_seq_found st' \<longrightarrow>
            is_longer_seq_found st \<and> sequence_end_pos st' = sequence_end_pos st \<or>
            sequence_end_pos st' = idy st)"
  using assms
  by (auto simp: inner_body_def Let_def split: option.splits if_splits prod.splits sum.splits)

lemma inner_body_idy_mono:
  "inner_body limit kp sentence st = Inr (Continue st') \<Longrightarrow> idy st \<le> idy st'"
  using inner_body_progress[of limit kp sentence st st'] by auto

lemma inner_loop_cases:
  assumes "inner_loop limit kp sentence st = Inr r"
  obtains (stop) "\<not> idy st < length sentence"
      "r = (if get_kw (current_dict_continued st) \<noteq> None
            then st\<lparr> longest_sequence_found := get_kw (current_dict_continued st),
                     sequence_end_pos := idy st,
                     is_longer_seq_found := True \<rparr>
            else st)"
    | (continue) st' where "idy st < length sentence"
        "inner_body limit kp sentence st = Inr (Continue st')"
        "inner_loop limit kp sentence st' = Inr r"
    | (break) "idy st < length sentence" "inner_body limit kp sentence st = Inr (Break r)"
proof (cases "idy st < length sentence")
  case False
  with assms have "r = (if get_kw (current_dict_continued st) \<noteq> None
            then st\<lparr> longest_sequence_found := get_kw (current_dict_continued st),
                     sequence_end_pos := idy st,
                     is_longer_seq_found := True \<rparr>
            else st)"
    by (simp add: inner_loop.simps[of limit kp sentence st])
  with False show ?thesis by (rule stop)
next
  case True
  show ?thesis
  proof (cases "inner_body limit kp sentence st")
    case (Inl e)
    with assms True show ?thesis by (simp add: inner_loop.simps[of limit kp sentence st])
  next
    case (Inr x)
    show ?thesis
    proof (cases x)
      case (Continue st')
      with assms True Inr have "inner_loop limit kp sentence st' = Inr r"
        by (simp add: inner_loop.simps[of limit kp sentence st])
      with True Inr Continue show ?thesis by (intro continue[of st']) simp_all
    next
      case (Break st')
      with assms True Inr have "r = st'"
        by (simp add: inner_loop.simps[of limit kp sentence st])
      with True Inr Break show ?thesis by (intro break) simp_all
    qed
  qed
qed

lemma inner_loop_frame:
  "inner_loop limit kp sentence st = Inr r \<Longrightarrow>
   idx r = idx st \<and> sequence_start_pos r = sequence_start_pos st \<and>
   keywords_extracted r = keywords_extracted st \<and> current_dict r = current_dict st \<and>
   reset_current_dict r = reset_current_dict st"
proof (induction limit kp sentence st rule: inner_loop.induct)
  case (1 limit kp sentence st)
  from "1.prems" show ?case
  proof (cases rule: inner_loop_cases)
    case stop
    then show ?thesis by simp
  next
    case (continue st')
    from "1.IH"[OF continue(1,2) refl continue(3)] inner_body_frame[of limit kp sentence st st']
      continue(2)
    show ?thesis by simp
  next
    case break
    with inner_body_frame[of limit kp sentence st r] show ?thesis by simp
  qed
qed

lemma inner_loop_end_pos:
  "inner_loop limit kp sentence st = Inr r \<Longrightarrow>
   lb \<le> idy st \<Longrightarrow> (is_longer_seq_found st \<longrightarrow> lb \<le> sequence_end_pos st) \<Longrightarrow>
   is_longer_seq_found r \<Longrightarrow> lb \<le> sequence_end_pos r"
proof (induction limit kp sentence st rule: inner_loop.induct)
  case (1 limit kp sentence st)
  from "1.prems"(1) show ?case
  proof (cases rule: inner_loop_cases)
    case stop
    with "1.prems" show ?thesis by (auto split: if_splits)
  next
    case (continue st')
    have a: "lb \<le> idy st'" using inner_body_idy_mono[OF continue(2)] "1.prems"(2) by simp
    have b: "is_longer_seq_found st' \<longrightarrow> lb \<le> sequence_end_pos st'"
      using inner_body_frame[of limit kp sentence st st'] continue(2) "1.prems"(2,3) by auto
    from "1.IH"[OF continue(1,2) refl continue(3) a b "1.prems"(4)] show ?thesis .
  next
    case break
    with inner_body_frame[of limit kp sentence st r] "1.prems" show ?thesis by auto
  qed
qed

lemma skip_word_ge: "skip_word kp sentence i = Inr j \<Longrightarrow> i \<le> j"
proof (induction kp sentence i rule: skip_word.induct)
  case (1 kp sentence i)
  show ?case
  proof (cases "i < length sentence")
    case False
    with "1.prems" show ?thesis by (simp add: skip_word.simps[of kp sentence i])
  next
    case True
    with "1.prems" obtain char where c: "py_index sentence (int i) = Inr char"
      by (cases "py_index sentence (int i)") (auto simp: skip_word.simps[of kp sentence i])
    show ?thesis
    proof (cases "char \<notin> non_word_boundaries kp")
      case t: True
      with "1.prems" True c show ?thesis by (simp add: skip_word.simps[of kp sentence i])
    next
      case False
      with "1.prems" True c have "skip_word kp sentence (i + 1) = Inr j"
        by (simp add: skip_word.simps[of kp sentence i])
      from "1.IH"[OF True c _ this] False show ?thesis by simp
    qed
  qed
qed

lemma get_next_word_nonempty:
  "i < length sentence \<Longrightarrow> sentence ! i \<in> non_word_boundaries kp \<Longrightarrow>
     get_next_word kp (drop i sentence) \<noteq> []"
  by (simp add: get_next_word_def Cons_nth_drop_Suc[symmetric])

lemma find_longest_frame:
  assumes "find_longest limit kp sentence char st = Inr r"
  shows "sequence_start_pos r = sequence_start_pos st \<and>
         keywords_extracted r = keywords_extracted st \<and> idx st \<le> idx r"
proof (cases "get_ch (current_dict st) char")
  case None
  with assms show ?thesis by (auto simp: find_longest_def Let_def)
next
  case (Some sub)
  let ?st2 = "(if get_kw (current_dict st) \<noteq> None
               then st\<lparr> longest_sequence_found := None, is_longer_seq_found := False,
                        longest_sequence_found := get_kw (current_dict st),
                        sequence_end_pos := idx st \<rparr>
               else st\<lparr> longest_sequence_found := None, is_longer_seq_found := False \<rparr>)
              \<lparr> current_dict_continued := sub, idy := idx st + 1 \<rparr>"
  from assms Some obtain st' where il: "inner_loop limit kp sentence ?st2 = Inr st'"
    and r: "r = (if is_longer_seq_found st' then st'\<lparr> idx := sequence_end_pos st' \<rparr> else st')"
    by (cases "inner_loop limit kp sentence ?st2") (auto simp: find_longest_def Let_def)
  have "\<not> is_longer_seq_found ?st2" by simp
  with inner_loop_end_pos[OF il, of "idx st + 1"]
  have "is_longer_seq_found st' \<Longrightarrow> idx st + 1 \<le> sequence_end_pos st'" by simp
  moreover have "idx st' = idx st" "sequence_start_pos st' = sequence_start_pos st"
    "keywords_extracted st' = keywords_extracted st"
    using inner_loop_frame[OF il] by simp_all
  ultimately show ?thesis using r by auto
qed

lemma emit_longest_idx:
  "emit_longest kp max_cost index_mapping st = Inr st' \<Longrightarrow>
     idx st' = idx st \<and> sequence_start_pos st' = sequence_start_pos st"
  by (auto simp: emit_longest_def Let_def split: option.splits if_splits sum.splits)

lemma py_index_nat:
  "py_index xs (int i) = (if i < length xs then Inr (xs ! i) else Inl IndexError)"
  by (simp add: py_index_def)

lemma match_step_idx:
  assumes "match_step limit kp sentence max_cost index_mapping st = Inr st'"
  shows "idx st \<le> idx st' \<and> sequence_start_pos st' = sequence_start_pos st"
proof -
  let ?cd = "current_dict st"
  from assms have lt: "idx st < length sentence"
    by (auto simp: match_step_def py_index_nat split: if_splits)
  define char where "char = sentence ! idx st"
  have pc: "py_index sentence (int (idx st)) = Inr char"
    using lt by (simp add: py_index_nat char_def)
  show ?thesis
  proof (cases "char \<in> non_word_boundaries kp")
    case True
    show ?thesis
    proof (cases "get_ch ?cd char")
      case (Some sub)
      with True assms pc show ?thesis by (auto simp: match_step_def Let_def)
    next
      case None
      show ?thesis
      proof (cases "curr_cost st > 0")
        case c: True
        from get_next_word_nonempty[OF lt] True
        have "length (get_next_word kp (drop (idx st) sentence)) \<ge> 1"
          by (cases "get_next_word kp (drop (idx st) sentence)") (auto simp: char_def)
        with True None c assms pc show ?thesis
          by (auto simp: match_step_def Let_def split: prod.splits sum.splits)
      next
        case c: False
        with True None assms pc obtain i where s: "skip_word kp sentence (idx st + 1) = Inr i"
          and st': "st' = st\<lparr> current_dict := keyword_trie_dict kp, reset_current_dict := True,
                               idy := i, idx := i \<rparr>"
          by (auto simp: match_step_def Let_def split: sum.splits)
        from skip_word_ge[OF s] st' show ?thesis by simp
      qed
    qed
  next
    case False
    show ?thesis
    proof (cases "get_kw ?cd \<noteq> None \<or> get_ch ?cd char \<noteq> None")
      case f: False
      with False assms pc show ?thesis by (auto simp: match_step_def Let_def)
    next
      case True
      with False assms pc obtain st3 where fl: "find_longest limit kp sentence char st = Inr st3"
        and el: "emit_longest kp max_cost index_mapping st3 = Inr st'"
        by (auto simp: match_step_def Let_def split: sum.splits)
      from emit_longest_idx[OF el] find_longest_frame[OF fl]
      show ?thesis by simp
    qed
  qed
qed

lemma end_step_idx:
  "end_step sentence index_mapping st = Inr st' \<Longrightarrow> idx st' = idx st + 1"
  by (auto simp: end_step_def Let_def split: option.splits if_splits sum.splits)

lemma outer_body_idx:
  "outer_body limit kp sentence max_cost index_mapping st = Inr st' \<Longrightarrow> idx st < idx st'"
proof -
  assume b: "outer_body limit kp sentence max_cost index_mapping st = Inr st'"
  from b obtain st1 where m: "match_step limit kp sentence max_cost index_mapping st = Inr st1"
    and e: "end_step sentence index_mapping st1 = Inr st'"
    by (auto simp: outer_body_def split: sum.splits)
  from match_step_idx[OF m] end_step_idx[OF e] show ?thesis by simp
qed

text \<open>The outer loop.\<close>

function scan ::
  "nat \<Rightarrow> keyword_processor \<Rightarrow> ustring \<Rightarrow> int \<Rightarrow> nat list option \<Rightarrow> scan_state
     \<Rightarrow> py_error + scan_state" where
  "scan limit kp sentence max_cost index_mapping st =
     (if idx st < length sentence then
        (case outer_body limit kp sentence max_cost index_mapping st of
           Inl e \<Rightarrow> Inl e
         | Inr st' \<Rightarrow> scan limit kp sentence max_cost index_mapping st')
      else Inr st)"
  by pat_completeness auto
termination
proof (relation "measure (\<lambda>(limit, kp, sentence, max_cost, index_mapping, st). length sentence - idx st)")
  fix limit :: nat and kp :: keyword_processor and sentence :: ustring and max_cost :: int
    and index_mapping :: "nat list option" and st st' :: scan_state
  assume "idx st < length sentence"
    and "outer_body limit kp sentence max_cost index_mapping st = Inr st'"
  from outer_body_idx[OF this(2)]
  show "((limit, kp, sentence, max_cost, index_mapping, st'),
         (limit, kp, sentence, max_cost, index_mapping, st))
          \<in> measure (\<lambda>(limit, kp, sentence, max_cost, index_mapping, st). length sentence - idx st)"
    using \<open>idx st < length sentence\<close> by simp
qed simp

declare scan.simps [simp del]

text \<open>
  \<open>extract_keywords\<close>. With \<open>span_info\<close> the result is the list of
  \<open>(clean name, start, end)\<close>; without it, the list of clean names.
\<close>

datatype extracted = Name pyobj | Span pyobj nat nat

definition extract_keywords ::
  "nat \<Rightarrow> (ustring \<Rightarrow> ustring) \<Rightarrow> keyword_processor \<Rightarrow> ustring \<Rightarrow> bool \<Rightarrow> int
     \<Rightarrow> py_error + extracted list" where
  "extract_keywords limit lower kp sentence0 span_info max_cost =
     (if sentence0 = [] then Inr []
      else
        (let index_mapping = get_index_mapping sentence0 (case_sensitive kp);
             sentence = (if \<not> case_sensitive kp then lower sentence0 else sentence0)
         in case scan limit kp sentence max_cost index_mapping
                   \<lparr> keywords_extracted = [],
                     current_dict = keyword_trie_dict kp,
                     sequence_start_pos = 0,
                     sequence_end_pos = 0,
                     reset_current_dict = False,
                     idx = 0,
                     curr_cost = max_cost,
                     longest_sequence_found = None,
                     is_longer_seq_found = False,
                     current_dict_continued = [],
                     idy = 0 \<rparr> of
              Inl e \<Rightarrow> Inl e
            | Inr st \<Rightarrow>
                Inr (if span_info then map (\<lambda>(v, a, b). Span v a b) (keywords_extracted st)
                     else map (\<lambda>value. Name (fst value)) (keywords_extracted st))))"

section \<open>Registered patterns\<close>

text \<open>
  \<open>lookup d w\<close> is the clean name stored at the end of the path \<open>w\<close> below \<open>d\<close>, if
  the path exists and ends in a terminal. It is what \<open>__getitem__\<close> computes on the
  case-folded word.
\<close>

fun lookup :: "trie \<Rightarrow> ustring \<Rightarrow> pyobj option" where
  "lookup d [] = get_kw d"
| "lookup d (c # cs) = (case get_ch d c of None \<Rightarrow> None | Some sub \<Rightarrow> lookup sub cs)"

lemma walk_le: "walk d w n = (d', m) \<Longrightarrow> n \<le> m \<and> m \<le> n + length w"
  by (induction w arbitrary: d n) (fastforce split: option.splits)+

lemma walk_lookup:
  "walk d w n = (d', m) \<Longrightarrow>
     (if get_kw d' \<noteq> None \<and> m = n + length w then get_kw d' else None) = lookup d w"
proof (induction w arbitrary: d n)
  case Nil
  then show ?case by (cases "get_kw d") auto
next
  case (Cons c cs)
  show ?case
  proof (cases "get_ch d c")
    case None
    with Cons.prems show ?thesis by auto
  next
    case (Some sub)
    with Cons.prems have "walk sub cs (n + 1) = (d', m)" by simp
    from Cons.IH[OF this] Some show ?thesis by simp
  qed
qed

lemma getitem_lookup:
  "getitem lower kp word =
     lookup (keyword_trie_dict kp) (if \<not> case_sensitive kp then lower word else word)"
proof -
  let ?w = "if \<not> case_sensitive kp then lower word else word"
  obtain d' m where w: "walk (keyword_trie_dict kp) ?w 0 = (d', m)" by force
  from walk_lookup[OF w] w show ?thesis
    by (simp add: getitem_def Let_def)
qed

lemma get_kw_set_kw: "get_kw (set_kw d v) = Some v"
  by (induction d v rule: set_kw.induct) auto

lemma get_ch_set_kw: "get_ch (set_kw d v) c = get_ch d c"
  by (induction d v rule: set_kw.induct) auto

lemma get_kw_set_ch: "get_kw (set_ch d c sub) = get_kw d"
  by (induction d c sub rule: set_ch.induct) auto

lemma get_ch_set_ch:
  "get_ch d c \<noteq> None \<Longrightarrow> get_ch (set_ch d c sub) c' = (if c' = c then Some sub else get_ch d c')"
  by (induction d c sub rule: set_ch.induct) auto

lemma get_kw_append: "get_kw (d @ [Ch c sub]) = get_kw d"
  by (induction d rule: get_kw.induct) auto

lemma get_ch_append:
  "get_ch d c = None \<Longrightarrow> get_ch (d @ [Ch c sub]) c' = (if c' = c then Some sub else get_ch d c')"
  by (induction d c rule: get_ch.induct) (auto split: if_splits)

lemma lookup_Nil: "lookup [] w = None"
  by (cases w) auto

lemma lookup_set_path:
  "lookup (fst (set_path d w v)) w' = (if w' = w then Some v else lookup d w')"
proof (induction w arbitrary: d w')
  case Nil
  then show ?case by (cases w') (auto simp: get_kw_set_kw get_ch_set_kw)
next
  case (Cons c cs)
  show ?case
  proof (cases "get_ch d c")
    case None
    then show ?thesis using Cons.IH[of "[]"]
      by (cases w') (auto simp: get_kw_append get_ch_append lookup_Nil split: prod.splits)
  next
    case (Some sub)
    then show ?thesis using Cons.IH[of sub]
      by (cases w') (auto simp: get_kw_set_ch get_ch_set_ch split: prod.splits)
  qed
qed

lemma status_set_path: "snd (set_path d w v) = (lookup d w = None)"
proof (induction w arbitrary: d)
  case Nil
  then show ?case by simp
next
  case (Cons c cs)
  show ?case
  proof (cases "get_ch d c")
    case None
    then show ?thesis using Cons.IH[of "[]"]
      by (cases "set_path [] cs v") (simp add: lookup_Nil)
  next
    case (Some sub)
    then show ?thesis using Cons.IH[of sub]
      by (cases "set_path sub cs v") simp
  qed
qed


text \<open>
  The registered patterns of a dict are the paths that end in a terminal. \<open>keys_of\<close>
  lists them, which shows that they are finitely many. \<open>del_rec\<close> is the pruning of
  \<open>__delitem__\<close> written as a recursion along the keyword: it returns the rebuilt dict
  and whether the loop of the source has hit its \<open>break\<close> at or below this level.
\<close>

definition registered :: "trie \<Rightarrow> ustring set" where
  "registered d = {w. lookup d w \<noteq> None}"

fun keys_of :: "trie \<Rightarrow> ustring list" where
  "keys_of [] = []"
| "keys_of (Kw v # d) = [] # keys_of d"
| "keys_of (Ch c sub # d) = map ((#) c) (keys_of sub) @ keys_of d"

fun del_rec :: "trie \<Rightarrow> ustring \<Rightarrow> trie \<times> bool" where
  "del_rec d [] = (dict_pop d KW, length d \<noteq> 1)"
| "del_rec d (c # cs) =
     (case get_ch d c of
        None \<Rightarrow> (d, True)
      | Some sub \<Rightarrow>
          (let (sub', broken) = del_rec sub cs
           in if broken then (set_ch d c sub', True)
              else (dict_pop d (CH c), length d \<noteq> 1)))"

lemma get_kw_keys_of: "get_kw d \<noteq> None \<Longrightarrow> [] \<in> set (keys_of d)"
  by (induction d rule: get_kw.induct) auto

lemma get_ch_keys_of: "get_ch d c = Some sub \<Longrightarrow> w \<in> set (keys_of sub) \<Longrightarrow> c # w \<in> set (keys_of d)"
  by (induction d c rule: get_ch.induct) (auto split: if_splits)

lemma lookup_keys_of: "lookup d w \<noteq> None \<Longrightarrow> w \<in> set (keys_of d)"
proof (induction w arbitrary: d)
  case Nil
  then show ?case by (simp add: get_kw_keys_of)
next
  case (Cons c cs)
  then obtain sub where s: "get_ch d c = Some sub" and l: "lookup sub cs \<noteq> None"
    by (auto split: option.splits)
  from Cons.IH[OF l] s show ?case by (rule get_ch_keys_of[rotated])
qed

lemma finite_registered: "finite (registered d)"
proof (rule finite_subset)
  show "registered d \<subseteq> set (keys_of d)"
    using lookup_keys_of by (fastforce simp: registered_def)
qed simp

lemma registered_set_path: "registered (fst (set_path d w v)) = insert w (registered d)"
  by (auto simp: registered_def lookup_set_path)

lemma collect_acc:
  "collect d w acc = (acc', cur) \<Longrightarrow> \<exists>path. acc' = acc @ path \<and> collect d w [] = (path, cur)"
proof (induction w arbitrary: d acc acc' cur)
  case Nil
  then show ?case by simp
next
  case (Cons c cs)
  show ?case
  proof (cases "get_ch d c")
    case None
    with Cons.prems show ?thesis by simp
  next
    case (Some sub)
    with Cons.prems have a: "collect sub cs (acc @ [(CH c, d)]) = (acc', cur)" by simp
    from Cons.IH[OF a] obtain p1 where p1: "acc' = (acc @ [(CH c, d)]) @ p1" "collect sub cs [] = (p1, cur)"
      by blast
    obtain a2 c2 where b: "collect sub cs ([] @ [(CH c, d)]) = (a2, c2)" by force
    from Cons.IH[OF b] obtain p2 where p2: "a2 = ([] @ [(CH c, d)]) @ p2" "collect sub cs [] = (p2, c2)"
      by blast
    from p1 p2 b Some show ?thesis by simp
  qed
qed

lemma collect_lookup:
  "collect d w [] = (path, cur) \<Longrightarrow>
     lookup d w = (case cur of None \<Rightarrow> None | Some dn \<Rightarrow> get_kw dn)"
proof (induction w arbitrary: d path)
  case Nil
  then show ?case by auto
next
  case (Cons c cs)
  show ?case
  proof (cases "get_ch d c")
    case None
    with Cons.prems show ?thesis by auto
  next
    case (Some sub)
    with Cons.prems have a: "collect sub cs ([] @ [(CH c, d)]) = (path, cur)" by simp
    from collect_acc[OF a] obtain p where "collect sub cs [] = (p, cur)" by blast
    from Cons.IH[OF this] Some show ?thesis by simp
  qed
qed

lemma prune_del_rec:
  "collect d w [] = (path, Some dn) \<Longrightarrow>
     foldr prune_step (path @ [(KW, dn)]) ([], False) = del_rec d w"
proof (induction w arbitrary: d path)
  case Nil
  then show ?case by simp
next
  case (Cons c cs)
  show ?case
  proof (cases "get_ch d c")
    case None
    with Cons.prems show ?thesis by simp
  next
    case (Some sub)
    with Cons.prems have a: "collect sub cs ([] @ [(CH c, d)]) = (path, Some dn)" by simp
    from collect_acc[OF a] obtain p where p: "path = [(CH c, d)] @ p" "collect sub cs [] = (p, Some dn)"
      by auto
    from Cons.IH[OF p(2)] have "foldr prune_step (p @ [(KW, dn)]) ([], False) = del_rec sub cs" .
    then show ?thesis using Some p(1)
      by (cases "del_rec sub cs") simp
  qed
qed

lemma get_kw_pop_KW: "get_kw (dict_pop d KW) = None"
proof (induction d)
  case Nil
  then show ?case by (simp add: dict_pop_def)
next
  case (Cons a d)
  then show ?case by (cases a) (auto simp: dict_pop_def)
qed

lemma get_ch_pop_KW: "get_ch (dict_pop d KW) c = get_ch d c"
proof (induction d)
  case Nil
  then show ?case by (simp add: dict_pop_def)
next
  case (Cons a d)
  then show ?case by (cases a) (auto simp: dict_pop_def)
qed

lemma get_kw_pop_CH: "get_kw (dict_pop d (CH c)) = get_kw d"
proof (induction d)
  case Nil
  then show ?case by (simp add: dict_pop_def)
next
  case (Cons a d)
  then show ?case by (cases a) (auto simp: dict_pop_def)
qed

lemma get_ch_pop_CH: "get_ch (dict_pop d (CH c)) c' = (if c' = c then None else get_ch d c')"
proof (induction d)
  case Nil
  then show ?case by (simp add: dict_pop_def)
next
  case (Cons a d)
  then show ?case by (cases a) (auto simp: dict_pop_def)
qed

lemma single_get_kw: "length d = 1 \<Longrightarrow> get_kw d \<noteq> None \<Longrightarrow> \<exists>v. d = [Kw v]"
  by (cases d; cases "hd d") auto

lemma single_get_ch: "length d = 1 \<Longrightarrow> get_ch d c = Some sub \<Longrightarrow> d = [Ch c sub]"
  by (cases d; cases "hd d") (auto split: if_splits)

lemma del_rec_unbroken:
  "lookup d w \<noteq> None \<Longrightarrow> \<not> snd (del_rec d w) \<Longrightarrow> lookup d w' \<noteq> None \<Longrightarrow> w' = w"
proof (induction w arbitrary: d w')
  case Nil
  then obtain v where "d = [Kw v]" using single_get_kw[of d] by auto
  with Nil show ?case by (cases w') auto
next
  case (Cons c cs)
  then obtain sub where s: "get_ch d c = Some sub" and l: "lookup sub cs \<noteq> None"
    by (auto split: option.splits)
  obtain sub' b where dr: "del_rec sub cs = (sub', b)" by force
  with Cons.prems(2) s have nb: "\<not> b" and len: "length d = 1"
    by (auto split: if_splits)
  from single_get_ch[OF len s] have d: "d = [Ch c sub]" .
  with Cons.prems(3) obtain cs' where w': "w' = c # cs'" and l': "lookup sub cs' \<noteq> None"
    by (cases w') (auto split: if_splits)
  from Cons.IH[OF l _ l'] nb dr have "cs' = cs" by simp
  with w' show ?case by simp
qed

lemma lookup_del_rec:
  "lookup d w \<noteq> None \<Longrightarrow> lookup (fst (del_rec d w)) w' = (if w' = w then None else lookup d w')"
proof (induction w arbitrary: d w')
  case Nil
  then show ?case by (cases w') (auto simp: get_kw_pop_KW get_ch_pop_KW)
next
  case (Cons c cs)
  then obtain sub where s: "get_ch d c = Some sub" and l: "lookup sub cs \<noteq> None"
    by (auto split: option.splits)
  obtain sub' b where dr: "del_rec sub cs = (sub', b)" by force
  have sub': "sub' = fst (del_rec sub cs)" using dr by simp
  show ?case
  proof (cases b)
    case True
    then have new: "fst (del_rec d (c # cs)) = set_ch d c sub'" using s dr by simp
    show ?thesis
    proof (cases w')
      case Nil
      then show ?thesis by (simp add: new get_kw_set_ch del: del_rec.simps)
    next
      case (Cons c' cs')
      then show ?thesis using s Cons.IH[OF l, of cs']
        by (auto simp: new get_ch_set_ch sub' simp del: del_rec.simps)
    qed
  next
    case False
    then have new: "fst (del_rec d (c # cs)) = dict_pop d (CH c)" using s dr by simp
    have only: "\<And>x. lookup sub x \<noteq> None \<Longrightarrow> x = cs"
      using del_rec_unbroken[OF l] dr False by simp
    show ?thesis
    proof (cases w')
      case Nil
      then show ?thesis by (simp add: new get_kw_pop_CH del: del_rec.simps)
    next
      case (Cons c' cs')
      have "cs' \<noteq> cs \<Longrightarrow> lookup sub cs' = None"
        using only[of cs'] by blast
      then show ?thesis using s Cons
        by (auto simp: new get_ch_pop_CH simp del: del_rec.simps)
    qed
  qed
qed

lemma registered_del_rec:
  "lookup d w \<noteq> None \<Longrightarrow> registered (fst (del_rec d w)) = registered d - {w}"
  by (auto simp: registered_def lookup_del_rec)


definition fold_case :: "(ustring \<Rightarrow> ustring) \<Rightarrow> keyword_processor \<Rightarrow> ustring \<Rightarrow> ustring" where
  "fold_case lower kp w = (if \<not> case_sensitive kp then lower w else w)"

lemma get_keyword_lookup:
  "get_keyword lower kp w = lookup (keyword_trie_dict kp) (fold_case lower kp w)"
  by (simp add: get_keyword_def getitem_lookup fold_case_def)

lemma delitem_eq:
  "delitem lower kp p =
     (if p \<noteq> [] \<and> lookup (keyword_trie_dict kp) (fold_case lower kp p) \<noteq> None
      then (True, kp\<lparr> keyword_trie_dict := fst (del_rec (keyword_trie_dict kp) (fold_case lower kp p)),
                       terms_in_trie := terms_in_trie kp - 1 \<rparr>)
      else (False, kp))"
proof (cases "p = []")
  case True
  then show ?thesis by (simp add: delitem_def)
next
  case False
  let ?w = "fold_case lower kp p"
  obtain path cur where c: "collect (keyword_trie_dict kp) ?w [] = (path, cur)" by force
  note l = collect_lookup[OF c]
  show ?thesis
  proof (cases cur)
    case None
    with l c False show ?thesis by (simp add: delitem_def fold_case_def)
  next
    case (Some dn)
    show ?thesis
    proof (cases "get_kw dn")
      case None
      with l c False Some show ?thesis by (simp add: delitem_def fold_case_def)
    next
      case (Some v)
      then have ne: "dn \<noteq> []" by auto
      from c \<open>cur = Some dn\<close> have "collect (keyword_trie_dict kp) ?w [] = (path, Some dn)" by simp
      from prune_del_rec[OF this]
      have "fold prune_step (rev (path @ [(KW, dn)])) ([], False) = del_rec (keyword_trie_dict kp) ?w"
        by (simp only: foldr_conv_fold)
      with l c False Some \<open>cur = Some dn\<close> ne show ?thesis
        by (simp add: delitem_def fold_case_def)
    qed
  qed
qed

lemma setitem_eq:
  "p \<noteq> [] \<Longrightarrow> truthy v \<Longrightarrow>
   setitem lower kp p (Some v) =
     (lookup (keyword_trie_dict kp) (fold_case lower kp p) = None,
      kp\<lparr> keyword_trie_dict := fst (set_path (keyword_trie_dict kp) (fold_case lower kp p) v),
          terms_in_trie := (if lookup (keyword_trie_dict kp) (fold_case lower kp p) = None
                            then terms_in_trie kp + 1 else terms_in_trie kp) \<rparr>)"
  using status_set_path[of "keyword_trie_dict kp" "fold_case lower kp p" v]
  by (cases "set_path (keyword_trie_dict kp) (fold_case lower kp p) v")
     (simp add: setitem_def fold_case_def)

lemma setitem_cases:
  "setitem lower kp p cn = (False, kp) \<or>
   (\<exists>v. p \<noteq> [] \<and> truthy v \<and> setitem lower kp p cn = setitem lower kp p (Some v))"
proof (cases "p = []")
  case True
  then show ?thesis by (simp add: setitem_def)
next
  case False
  show ?thesis
  proof (cases cn)
    case None
    have "setitem lower kp p None = setitem lower kp p (Some (PStr p))"
      using False by (simp add: setitem_def)
    with False None show ?thesis by (intro disjI2 exI[of _ "PStr p"]) simp
  next
    case (Some v)
    show ?thesis
    proof (cases "truthy v")
      case True
      with False Some show ?thesis by blast
    next
      case f: False
      with Some show ?thesis by (simp add: setitem_def)
    qed
  qed
qed

definition count_inv :: "keyword_processor \<Rightarrow> bool" where
  "count_inv kp = (terms_in_trie kp = int (card (registered (keyword_trie_dict kp))))"

lemma count_inv_init: "count_inv (init cs)"
  by (simp add: count_inv_def init_def registered_def lookup_Nil)

lemma add_keyword_count:
  assumes "count_inv kp"
  shows "count_inv (snd (add_keyword lower kp k v)) \<and>
         len (snd (add_keyword lower kp k v)) =
           len kp + (if fst (add_keyword lower kp k v) then 1 else 0)"
proof -
  from setitem_cases[of lower kp k v] show ?thesis
  proof
    assume "setitem lower kp k v = (False, kp)"
    with assms show ?thesis by (simp add: add_keyword_def)
  next
    assume "\<exists>x. k \<noteq> [] \<and> truthy x \<and> setitem lower kp k v = setitem lower kp k (Some x)"
    then obtain x where x: "k \<noteq> []" "truthy x" "setitem lower kp k v = setitem lower kp k (Some x)"
      by blast
    let ?d = "keyword_trie_dict kp" and ?w = "fold_case lower kp k"
    have fin: "finite (registered ?d)" by (rule finite_registered)
    have mem: "(?w \<in> registered ?d) = (lookup ?d ?w \<noteq> None)" by (simp add: registered_def)
    show ?thesis
      using assms fin mem
      by (auto simp: add_keyword_def x(3) setitem_eq[OF x(1,2)] count_inv_def len_def
          registered_set_path card_insert_if)
  qed
qed

lemma remove_keyword_count:
  assumes "count_inv kp"
  shows "count_inv (snd (remove_keyword lower kp k)) \<and>
         len (snd (remove_keyword lower kp k)) =
           len kp - (if fst (remove_keyword lower kp k) then 1 else 0)"
proof -
  let ?d = "keyword_trie_dict kp" and ?w = "fold_case lower kp k"
  have fin: "finite (registered ?d)" by (rule finite_registered)
  have mem: "(?w \<in> registered ?d) = (lookup ?d ?w \<noteq> None)" by (simp add: registered_def)
  have pos: "?w \<in> registered ?d \<Longrightarrow> card (registered ?d) > 0"
    using fin by (auto simp: card_gt_0_iff)
  show ?thesis
    using assms fin mem pos
    by (auto simp: remove_keyword_def delitem_eq count_inv_def len_def registered_del_rec)
qed


section \<open>Adding keywords\<close>

text \<open>
  C5 (amended). \<open>add_keyword\<close> is a no-op that returns \<open>False\<close> when the pattern is
  empty, whatever the clean name, and when a clean name is given but is false in Python's
  sense (the empty string, zero, the empty tuple): the processor is returned unchanged.
  A \<open>None\<close> clean name with a non-empty pattern is not such a case.
\<close>

theorem add_keyword_noop:
  assumes "keyword = [] \<or> (\<exists>v. clean_name = Some v \<and> \<not> truthy v)"
  shows "add_keyword lower kp keyword clean_name = (False, kp)"
  using assms by (auto simp: add_keyword_def setitem_def)

theorem add_keyword_noop_witness:
  "add_keyword lower_basic (init False) [] None = (False, init False) \<and>
   add_keyword lower_basic (init True) (ustr ''a'') (Some (PStr [])) = (False, init True)"
  using add_keyword_noop[of "[]" None lower_basic "init False"]
        add_keyword_noop[of "ustr ''a''" "Some (PStr [])" lower_basic "init True"]
  by simp

text \<open>
  C5 as stated fails: with a \<open>None\<close> clean name and the non-empty pattern \<open>a\<close>, the call
  on a fresh processor returns \<open>True\<close> and registers \<open>a\<close> with clean name \<open>a\<close>.
\<close>

theorem add_keyword_none_registers:
  "fst (add_keyword lower_basic (init False) (ustr ''a'') None) = True \<and>
   get_keyword lower_basic (snd (add_keyword lower_basic (init False) (ustr ''a'') None)) (ustr ''a'')
     = Some (PStr (ustr ''a''))"
  by (simp add: add_keyword_def setitem_def init_def ustr_def lower_basic_def lower_cp_def
      get_keyword_def getitem_def)

text \<open>
  C10 (amended). For a non-empty pattern \<open>p\<close>, \<open>add_keyword(p)\<close> without a clean name
  registers the case-folded \<open>p\<close> (\<open>p\<close> itself when the processor is case sensitive)
  with the clean name \<open>p\<close> exactly as given, not case-folded: \<open>get_keyword(p)\<close> then
  returns \<open>p\<close>, and the call returns \<open>True\<close> exactly when \<open>get_keyword(p)\<close> was
  \<open>None\<close> before.
\<close>

theorem add_keyword_default_clean_name:
  assumes "p \<noteq> []"
  shows "get_keyword lower (snd (add_keyword lower kp p None)) p = Some (PStr p) \<and>
         fst (add_keyword lower kp p None) = (get_keyword lower kp p = None) \<and>
         lookup (keyword_trie_dict (snd (add_keyword lower kp p None)))
           (if case_sensitive kp then p else lower p) = Some (PStr p)"
proof -
  let ?w = "if case_sensitive kp then p else lower p"
  obtain d' st where sp: "set_path (keyword_trie_dict kp) ?w (PStr p) = (d', st)"
    by (cases "set_path (keyword_trie_dict kp) ?w (PStr p)")
  have d': "d' = fst (set_path (keyword_trie_dict kp) ?w (PStr p))" using sp by simp
  have st: "st = (lookup (keyword_trie_dict kp) ?w = None)"
    using status_set_path[of "keyword_trie_dict kp" ?w "PStr p"] sp by simp
  have add: "add_keyword lower kp p None =
               (st, kp\<lparr>keyword_trie_dict := d',
                        terms_in_trie := (if st then terms_in_trie kp + 1 else terms_in_trie kp)\<rparr>)"
    using assms sp by (auto simp: add_keyword_def setitem_def Let_def)
  have "lookup d' ?w = Some (PStr p)"
    unfolding d' by (simp add: lookup_set_path)
  then show ?thesis
    using st by (auto simp: add get_keyword_def getitem_lookup)
qed

theorem add_keyword_default_clean_name_witness:
  "get_keyword lower_basic (snd (add_keyword lower_basic (init False) (ustr ''NY'') None)) (ustr ''NY'')
     = Some (PStr (ustr ''NY'')) \<and>
   fst (add_keyword lower_basic (init False) (ustr ''NY'') None)"
proof -
  have ne: "ustr ''NY'' \<noteq> []" by (simp add: ustr_def)
  have "get_keyword lower_basic (init False) (ustr ''NY'') = None"
    by (simp add: get_keyword_def getitem_def init_def ustr_def lower_basic_def lower_cp_def)
  with add_keyword_default_clean_name[OF ne, of lower_basic "init False"] show ?thesis by simp
qed

text \<open>
  C10 as stated fails: on a case-insensitive processor \<open>add_keyword("NY")\<close> makes
  \<open>get_keyword("NY")\<close> return \<open>"NY"\<close>, which is not the case-folded \<open>"ny"\<close>.
\<close>

theorem add_keyword_clean_name_not_folded:
  "get_keyword lower_basic (snd (add_keyword lower_basic (init False) (ustr ''NY'') None)) (ustr ''NY'')
     = Some (PStr (ustr ''NY'')) \<and>
   Some (PStr (ustr ''NY'')) \<noteq> Some (PStr (lower_basic (ustr ''NY'')))"
  by (simp add: add_keyword_def setitem_def init_def ustr_def lower_basic_def lower_cp_def
      get_keyword_def getitem_def)

section \<open>The count of terms\<close>

lemma add_keyword_None_state:
  "k \<noteq> [] \<Longrightarrow>
   case_sensitive (snd (add_keyword lower kp k None)) = case_sensitive kp \<and>
   registered (keyword_trie_dict (snd (add_keyword lower kp k None))) =
     insert (fold_case lower kp k) (registered (keyword_trie_dict kp))"
proof -
  assume k: "k \<noteq> []"
  have "setitem lower kp k None = setitem lower kp k (Some (PStr k))"
    using k by (simp add: setitem_def)
  moreover have "truthy (PStr k)" using k by simp
  ultimately show ?thesis
    using setitem_eq[OF k, of "PStr k" lower kp]
    by (simp add: add_keyword_def registered_set_path)
qed

lemma add_keywords_from_list_state:
  "\<forall>k \<in> set ks. k \<noteq> [] \<Longrightarrow> count_inv kp \<Longrightarrow>
   count_inv (add_keywords_from_list lower kp ks) \<and>
   case_sensitive (add_keywords_from_list lower kp ks) = case_sensitive kp \<and>
   registered (keyword_trie_dict (add_keywords_from_list lower kp ks)) =
     fold_case lower kp ` set ks \<union> registered (keyword_trie_dict kp)"
proof (induction ks arbitrary: kp)
  case Nil
  then show ?case by (simp add: add_keywords_from_list_def)
next
  case (Cons k ks)
  let ?kp = "snd (add_keyword lower kp k None)"
  from Cons.prems have k: "k \<noteq> []" and ks: "\<forall>k \<in> set ks. k \<noteq> []" by auto
  have inv: "count_inv ?kp" using add_keyword_count[OF Cons.prems(2)] by blast
  note st = add_keyword_None_state[OF k, of lower kp]
  have fc: "fold_case lower ?kp = fold_case lower kp"
    using st by (auto simp: fold_case_def fun_eq_iff)
  have unf: "add_keywords_from_list lower kp (k # ks) = add_keywords_from_list lower ?kp ks"
    by (simp add: add_keywords_from_list_def)
  from Cons.IH[OF ks inv] st show ?case
    by (auto simp: unf fc)
qed

text \<open>
  C3. \<open>count_inv\<close> says that the live terminal count, which \<open>len\<close> returns, is the
  number of distinct registered (case-folded) patterns. It holds of a fresh processor and
  every \<open>add_keyword\<close> and \<open>remove_keyword\<close> call preserves it; a call that returns
  \<open>True\<close> moves the count by one, up for an addition and down for a removal, and any other
  call leaves it alone, in particular the re-registration of a registered pattern.
  Registering a list of non-empty patterns on a fresh processor yields as size the number
  of distinct case-folded patterns in the list.
\<close>

theorem terms_in_trie_counts_registered:
  "count_inv (init cs) \<and>
   (count_inv kp \<longrightarrow>
      count_inv (snd (add_keyword lower kp k v)) \<and>
      count_inv (snd (remove_keyword lower kp k)) \<and>
      len (snd (add_keyword lower kp k v)) =
        len kp + (if fst (add_keyword lower kp k v) then 1 else 0) \<and>
      len (snd (remove_keyword lower kp k)) =
        len kp - (if fst (remove_keyword lower kp k) then 1 else 0) \<and>
      (get_keyword lower kp k \<noteq> None \<longrightarrow> len (snd (add_keyword lower kp k v)) = len kp)) \<and>
   ((\<forall>k \<in> set ks. k \<noteq> []) \<longrightarrow>
      len (add_keywords_from_list lower (init cs) ks) =
        int (card ((\<lambda>k. if cs then k else lower k) ` set ks)))"
proof (intro conjI impI)
  show "count_inv (init cs)" by (rule count_inv_init)
next
  assume inv: "count_inv kp"
  from add_keyword_count[OF inv, of lower k v]
  show "count_inv (snd (add_keyword lower kp k v))"
    and "len (snd (add_keyword lower kp k v)) =
           len kp + (if fst (add_keyword lower kp k v) then 1 else 0)"
    by blast+
  from remove_keyword_count[OF inv, of lower k]
  show "count_inv (snd (remove_keyword lower kp k))"
    and "len (snd (remove_keyword lower kp k)) =
           len kp - (if fst (remove_keyword lower kp k) then 1 else 0)"
    by blast+
  assume reg: "get_keyword lower kp k \<noteq> None"
  from setitem_cases[of lower kp k v]
  show "len (snd (add_keyword lower kp k v)) = len kp"
  proof
    assume "setitem lower kp k v = (False, kp)"
    then show ?thesis by (simp add: add_keyword_def)
  next
    assume "\<exists>x. k \<noteq> [] \<and> truthy x \<and> setitem lower kp k v = setitem lower kp k (Some x)"
    then obtain x where x: "k \<noteq> []" "truthy x" "setitem lower kp k v = setitem lower kp k (Some x)"
      by blast
    from reg show ?thesis
      by (simp add: add_keyword_def x(3) setitem_eq[OF x(1,2)] len_def get_keyword_lookup)
  qed
next
  assume ne: "\<forall>k \<in> set ks. k \<noteq> []"
  have fc: "fold_case lower (init cs) = (\<lambda>k. if cs then k else lower k)"
    by (auto simp: fold_case_def init_def fun_eq_iff)
  have e: "registered (keyword_trie_dict (init cs)) = {}"
    by (simp add: registered_def init_def lookup_Nil)
  from add_keywords_from_list_state[OF ne count_inv_init, of lower cs]
  show "len (add_keywords_from_list lower (init cs) ks) =
          int (card ((\<lambda>k. if cs then k else lower k) ` set ks))"
    by (simp add: count_inv_def len_def fc e)
qed

theorem terms_in_trie_counts_registered_witness:
  "count_inv (init False) \<and>
   len (snd (add_keyword lower_basic (init False) (ustr ''a'') None)) = 1 \<and>
   len (snd (remove_keyword lower_basic (init False) (ustr ''a''))) = 0 \<and>
   len (add_keywords_from_list lower_basic (init False) [ustr ''NY'', ustr ''ny'', ustr ''SF'']) = 2"
proof -
  note t = terms_in_trie_counts_registered[of False "init False" lower_basic "ustr ''a''" None
      "[ustr ''NY'', ustr ''ny'', ustr ''SF'']"]
  have a: "fst (add_keyword lower_basic (init False) (ustr ''a'') None)"
    by (simp add: add_keyword_def setitem_def init_def ustr_def lower_basic_def lower_cp_def)
  have r: "\<not> fst (remove_keyword lower_basic (init False) (ustr ''a''))"
    by (simp add: remove_keyword_def delitem_def init_def ustr_def lower_basic_def lower_cp_def)
  have l0: "len (init False) = 0" by (simp add: len_def init_def)
  have c: "card ((\<lambda>k. if False then k else lower_basic k) ` set [ustr ''NY'', ustr ''ny'', ustr ''SF'']) = 2"
    by (simp add: ustr_def lower_basic_def lower_cp_def)
  have ne: "\<forall>k \<in> set [ustr ''NY'', ustr ''ny'', ustr ''SF'']. k \<noteq> []"
    by (simp add: ustr_def)
  from t a r l0 c ne show ?thesis by simp
qed

section \<open>Loading a dictionary of keywords\<close>

fun is_arg_list :: "pyarg \<Rightarrow> bool" where
  "is_arg_list (ArgList ks) = True"
| "is_arg_list (ArgOther x) = False"


lemma add_keywords_from_dict_append:
  "list_all (\<lambda>e. is_arg_list (snd e)) pre \<Longrightarrow>
     add_keywords_from_dict lower kp (pre @ rest) =
       add_keywords_from_dict lower (snd (add_keywords_from_dict lower kp pre)) rest \<and>
     fst (add_keywords_from_dict lower kp pre) = None"
proof (induction pre arbitrary: kp)
  case Nil
  then show ?case by simp
next
  case (Cons e pre)
  obtain cn a where e: "e = (cn, a)" by (cases e)
  with Cons.prems obtain ks where a: "a = ArgList ks" by (cases a) auto
  from Cons.prems have "list_all (\<lambda>e. is_arg_list (snd e)) pre" by simp
  from Cons.IH[OF this] show ?case by (simp add: e a)
qed

lemma add_keyword_get_keyword:
  "get_keyword lower (snd (add_keyword lower kp k (Some v))) q =
     (if k \<noteq> [] \<and> truthy v \<and> fold_case lower kp q = fold_case lower kp k
      then Some v else get_keyword lower kp q)"
proof (cases "k \<noteq> [] \<and> truthy v")
  case True
  then have k: "k \<noteq> []" and v: "truthy v" by simp_all
  show ?thesis using True
    by (simp add: add_keyword_def setitem_eq[OF k v] get_keyword_lookup lookup_set_path
        fold_case_def)
next
  case False
  then have "add_keyword lower kp k (Some v) = (False, kp)"
    by (auto simp: add_keyword_def setitem_def)
  with False show ?thesis by auto
qed

lemma add_keyword_case_sensitive:
  "case_sensitive (snd (add_keyword lower kp k cn)) = case_sensitive kp"
  by (auto simp: add_keyword_def setitem_def Let_def split: prod.splits)

lemma add_keyword_fold_case:
  "fold_case lower (snd (add_keyword lower kp k cn)) = fold_case lower kp"
  by (simp add: fold_case_def add_keyword_case_sensitive fun_eq_iff)

text \<open>
  The inner loop \<open>for keyword in keywords: self.add_keyword(keyword, clean_name)\<close> of
  \<open>add_keywords_from_dict\<close>, and what \<open>get_keyword\<close> returns after it.
\<close>

definition add_all ::
  "(ustring \<Rightarrow> ustring) \<Rightarrow> ustring \<Rightarrow> ustring list \<Rightarrow> keyword_processor \<Rightarrow> keyword_processor" where
  "add_all lower clean_name ks kp =
     fold (\<lambda>keyword kp'. snd (add_keyword lower kp' keyword (Some (PStr clean_name)))) ks kp"

lemma add_all_fold_case: "fold_case lower (add_all lower cn ks kp) = fold_case lower kp"
  by (induction ks arbitrary: kp) (simp_all add: add_all_def add_keyword_fold_case)

lemma add_all_get_keyword:
  "get_keyword lower (add_all lower cn ks kp) q =
     (if cn \<noteq> [] \<and> (\<exists>k \<in> set ks. k \<noteq> [] \<and> fold_case lower kp k = fold_case lower kp q)
      then Some (PStr cn) else get_keyword lower kp q)"
proof (induction ks arbitrary: kp)
  case Nil
  then show ?case by (simp add: add_all_def)
next
  case (Cons k ks)
  let ?kp1 = "snd (add_keyword lower kp k (Some (PStr cn)))"
  have u: "add_all lower cn (k # ks) kp = add_all lower cn ks ?kp1" by (simp add: add_all_def)
  show ?case
    unfolding u Cons.IH add_keyword_fold_case add_keyword_get_keyword
    by auto
qed

text \<open>
  \<open>dict_pairs\<close> lists the pairs \<open>(keyword, clean_name)\<close> of a dictionary in the order
  the two loops reach them; \<open>effective\<close> keeps those that change what \<open>get_keyword q\<close>
  returns: the keyword and the clean name are not empty and the keyword folds to the same
  path as \<open>q\<close>.
\<close>

definition dict_pairs :: "(ustring \<times> pyarg) list \<Rightarrow> (ustring \<times> ustring) list" where
  "dict_pairs entries =
     concat (map (\<lambda>(clean_name, keywords).
                    case keywords of ArgList ks \<Rightarrow> map (\<lambda>k. (k, clean_name)) ks
                                   | ArgOther x \<Rightarrow> []) entries)"

definition effective ::
  "(ustring \<Rightarrow> ustring) \<Rightarrow> keyword_processor \<Rightarrow> ustring \<Rightarrow> (ustring \<times> ustring) list
     \<Rightarrow> (ustring \<times> ustring) list" where
  "effective lower kp q ps =
     filter (\<lambda>(k, cn). k \<noteq> [] \<and> cn \<noteq> [] \<and> fold_case lower kp k = fold_case lower kp q) ps"

lemma effective_same:
  "effective lower kp q (map (\<lambda>k. (k, cn)) ks) \<noteq> [] \<longleftrightarrow>
     cn \<noteq> [] \<and> (\<exists>k \<in> set ks. k \<noteq> [] \<and> fold_case lower kp k = fold_case lower kp q)"
  by (auto simp: effective_def filter_empty_conv)

lemma effective_same_last:
  "effective lower kp q (map (\<lambda>k. (k, cn)) ks) \<noteq> [] \<Longrightarrow>
     snd (last (effective lower kp q (map (\<lambda>k. (k, cn)) ks))) = cn"
proof -
  assume ne: "effective lower kp q (map (\<lambda>k. (k, cn)) ks) \<noteq> []"
  from last_in_set[OF ne] show ?thesis by (auto simp: effective_def)
qed

lemma add_keywords_from_dict_lists:
  assumes "list_all (\<lambda>e. is_arg_list (snd e)) pre"
  shows "fst (add_keywords_from_dict lower kp pre) = None \<and>
         get_keyword lower (snd (add_keywords_from_dict lower kp pre)) q =
           (if effective lower kp q (dict_pairs pre) = [] then get_keyword lower kp q
            else Some (PStr (snd (last (effective lower kp q (dict_pairs pre))))))"
  using assms
proof (induction pre arbitrary: kp)
  case Nil
  then show ?case by (simp add: dict_pairs_def effective_def)
next
  case (Cons e pre)
  obtain cn a where e: "e = (cn, a)" by (cases e)
  with Cons.prems obtain ks where a: "a = ArgList ks" by (cases a) auto
  from Cons.prems have rest: "list_all (\<lambda>e. is_arg_list (snd e)) pre" by simp
  let ?kp1 = "add_all lower cn ks kp"
  let ?E1 = "effective lower kp q (map (\<lambda>k. (k, cn)) ks)"
  let ?E2 = "effective lower kp q (dict_pairs pre)"
  have u: "add_keywords_from_dict lower kp (e # pre) = add_keywords_from_dict lower ?kp1 pre"
    by (simp add: e a add_all_def)
  have fc: "effective lower ?kp1 q = effective lower kp q"
    by (simp add: effective_def add_all_fold_case fun_eq_iff)
  have sp: "effective lower kp q (dict_pairs (e # pre)) = ?E1 @ ?E2"
    by (simp add: dict_pairs_def e a effective_def)
  note ih = Cons.IH[OF rest, of ?kp1, unfolded fc]
  have g1: "get_keyword lower ?kp1 q = (if ?E1 \<noteq> [] then Some (PStr cn) else get_keyword lower kp q)"
    unfolding add_all_get_keyword effective_same by simp
  show ?case
  proof (cases "?E2 = []")
    case True
    show ?thesis
    proof (cases "?E1 = []")
      case t: True
      with True ih g1 show ?thesis unfolding u sp by simp
    next
      case False
      with True ih g1 effective_same_last[OF False] show ?thesis unfolding u sp by simp
    qed
  next
    case False
    with ih show ?thesis unfolding u sp by simp
  qed
qed

text \<open>
  C6 (amended). When the first value of the dictionary that is not a list comes after the
  entries \<open>pre\<close>, \<open>add_keywords_from_dict\<close> raises \<open>AttributeError\<close> and leaves the
  processor as the successful registration of \<open>pre\<close> leaves it, so nothing at or after
  the offending entry is registered and what comes before it stays registered: afterwards
  \<open>get_keyword q\<close> is the clean name of the last pair \<open>(keyword, clean_name)\<close> of
  \<open>pre\<close> whose keyword and clean name are both non-empty and whose case-folded keyword
  is the case-folded \<open>q\<close>, and it is what it was before the call when \<open>pre\<close> has no
  such pair. A pair with an empty keyword or an empty clean name registers nothing.
\<close>

theorem add_keywords_from_dict_partial:
  assumes "list_all (\<lambda>e. is_arg_list (snd e)) pre"
  shows "add_keywords_from_dict lower kp (pre @ (clean_name, ArgOther x) # post) =
           (Some AttributeError, snd (add_keywords_from_dict lower kp pre)) \<and>
         fst (add_keywords_from_dict lower kp pre) = None \<and>
         get_keyword lower
             (snd (add_keywords_from_dict lower kp (pre @ (clean_name, ArgOther x) # post))) q =
           (if effective lower kp q (dict_pairs pre) = [] then get_keyword lower kp q
            else Some (PStr (snd (last (effective lower kp q (dict_pairs pre))))))"
  using add_keywords_from_dict_append[OF assms, of lower kp "(clean_name, ArgOther x) # post"]
    add_keywords_from_dict_lists[OF assms, of lower kp q]
  by simp

theorem add_keywords_from_dict_partial_witness:
  "fst (add_keywords_from_dict lower_basic (init False)
          [(ustr ''java'', ArgList [ustr ''j2ee'']), (ustr ''pm'', ArgOther (PInt 1))]) =
     Some AttributeError \<and>
   get_keyword lower_basic
     (snd (add_keywords_from_dict lower_basic (init False)
          [(ustr ''java'', ArgList [ustr ''j2ee'']), (ustr ''pm'', ArgOther (PInt 1))]))
     (ustr ''J2EE'') = Some (PStr (ustr ''java'')) \<and>
   get_keyword lower_basic
     (snd (add_keywords_from_dict lower_basic (init False)
          [(ustr ''java'', ArgList [ustr ''j2ee'']), (ustr ''pm'', ArgOther (PInt 1))]))
     (ustr ''pm'') = None"
proof -
  have l: "list_all (\<lambda>e. is_arg_list (snd e)) [(ustr ''java'', ArgList [ustr ''j2ee''])]"
    by simp
  have e1: "effective lower_basic (init False) (ustr ''J2EE'')
              (dict_pairs [(ustr ''java'', ArgList [ustr ''j2ee''])]) =
            [(ustr ''j2ee'', ustr ''java'')]"
    by (simp add: effective_def dict_pairs_def fold_case_def init_def ustr_def lower_basic_def
        lower_cp_def)
  have e2: "effective lower_basic (init False) (ustr ''pm'')
              (dict_pairs [(ustr ''java'', ArgList [ustr ''j2ee''])]) = []"
    by (simp add: effective_def dict_pairs_def fold_case_def init_def ustr_def lower_basic_def
        lower_cp_def)
  have g: "get_keyword lower_basic (init False) (ustr ''pm'') = None"
    by (simp add: get_keyword_def getitem_def init_def ustr_def lower_basic_def lower_cp_def)
  from add_keywords_from_dict_partial[OF l, of lower_basic "init False" "ustr ''pm''" "PInt 1" "[]"
      "ustr ''J2EE''"]
    add_keywords_from_dict_partial[OF l, of lower_basic "init False" "ustr ''pm''" "PInt 1" "[]"
      "ustr ''pm''"]
  show ?thesis by (simp add: e1 e2 g)
qed

text \<open>
  C6 as stated fails: the call with \<open>{"java": ["j2ee"], "pm": 1}\<close> raises, and
  \<open>j2ee\<close>, which was not registered before the call, is registered after it.
\<close>

theorem add_keywords_from_dict_not_atomic:
  "fst (add_keywords_from_dict lower_basic (init False)
          [(ustr ''java'', ArgList [ustr ''j2ee'']), (ustr ''pm'', ArgOther (PInt 1))])
     = Some AttributeError \<and>
   get_keyword lower_basic
     (snd (add_keywords_from_dict lower_basic (init False)
          [(ustr ''java'', ArgList [ustr ''j2ee'']), (ustr ''pm'', ArgOther (PInt 1))]))
     (ustr ''j2ee'') = Some (PStr (ustr ''java'')) \<and>
   get_keyword lower_basic (init False) (ustr ''j2ee'') = None"
  by (simp add: add_keyword_def setitem_def init_def ustr_def lower_basic_def lower_cp_def
      get_keyword_def getitem_def)

section \<open>Exceptions of the extraction\<close>

text \<open>
  \<open>items_depth d\<close> is the number of nested frames of \<open>_levenshtein_rec\<close> that a search
  started at the dict \<open>d\<close> can need: one for each item, on top of those of the items of
  its dict.
\<close>

fun item_depth :: "item \<Rightarrow> nat" and items_depth :: "trie \<Rightarrow> nat" where
  "item_depth (Kw v) = 1"
| "item_depth (Ch c sub) = Suc (items_depth sub)"
| "items_depth [] = 0"
| "items_depth (it # its) = max (item_depth it) (items_depth its)"


lemma item_depth_pos: "0 < item_depth it"
  by (cases it) auto












text \<open>
  \<open>span_ok\<close>: the index mapping, when there is one, is as long as the sentence that is
  scanned. Then every index \<open>_get_span_indices\<close> reads is in range.
\<close>

definition span_ok :: "nat list option \<Rightarrow> nat \<Rightarrow> bool" where
  "span_ok index_mapping n = (case index_mapping of None \<Rightarrow> True | Some im \<Rightarrow> length im = n)"

lemma span_ok_None [simp]: "span_ok None n"
  by (simp add: span_ok_def)

lemma get_span_indices_ok:
  "span_ok index_mapping n \<Longrightarrow> a < n \<Longrightarrow> b \<le> n \<Longrightarrow>
     \<exists>r. get_span_indices a b index_mapping = Inr r"
  by (cases index_mapping) (auto simp: span_ok_def get_span_indices_def py_index_def)


lemma inner_body_unfold:
  assumes "idy st < length sentence"
  shows "inner_body limit kp sentence st =
     (let inner_char = sentence ! idy st;
          st1 = (if inner_char \<notin> non_word_boundaries kp \<and> get_kw (current_dict_continued st) \<noteq> None
                 then st\<lparr> longest_sequence_found := get_kw (current_dict_continued st),
                          sequence_end_pos := idy st,
                          is_longer_seq_found := True \<rparr>
                 else st)
      in case get_ch (current_dict_continued st) inner_char of
           Some sub \<Rightarrow> Inr (Continue (st1\<lparr> current_dict_continued := sub, idy := idy st + 1 \<rparr>))
         | None \<Rightarrow>
             if curr_cost st > 0 then
               (let next_word = get_next_word kp (drop (idy st) sentence)
                in case next_or (levensthein limit kp next_word (curr_cost st)
                                   (current_dict_continued st))
                                ([], 0, 0) of
                     Inl e \<Rightarrow> Inl e
                   | Inr (node, cost, depth) \<Rightarrow>
                       if node = [] then
                         Inr (Break (st1\<lparr> current_dict_continued := node,
                                          curr_cost := curr_cost st - cost,
                                          idy := idy st + length next_word - 1 \<rparr>))
                       else
                         Inr (Continue (st1\<lparr> current_dict_continued := node,
                                             curr_cost := curr_cost st - cost,
                                             idy := idy st + length next_word - 1 + 1 \<rparr>)))
             else Inr (Break st1))"
  using assms
  by (simp add: inner_body_def py_index_nat Let_def split: option.splits sum.splits prod.splits)

















lemma index_mapping_fold_length:
  "length (fold (\<lambda>(idx, char) offsets.
                   (if char = LATIN_CAPITAL_LETTER_I_WITH_DOT_ABOVE
                    then offsets @ [idx] else offsets) @ [idx]) ps acc) =
     length acc + length ps + count_list (map snd ps) LATIN_CAPITAL_LETTER_I_WITH_DOT_ABOVE"
  by (induction ps arbitrary: acc) (auto split: prod.splits)

lemma get_index_mapping_length:
  "get_index_mapping sentence cs = Some im \<Longrightarrow>
     length im = length sentence + count_list sentence LATIN_CAPITAL_LETTER_I_WITH_DOT_ABOVE"
  by (auto simp: get_index_mapping_def index_mapping_fold_length split: if_splits)

lemma get_index_mapping_None:
  "(get_index_mapping sentence cs = None) =
     (cs \<or> LATIN_CAPITAL_LETTER_I_WITH_DOT_ABOVE \<notin> set sentence)"
  by (simp add: get_index_mapping_def)

lemma lower_basic_length:
  "length (lower_basic s) = length s + count_list s LATIN_CAPITAL_LETTER_I_WITH_DOT_ABOVE"
  by (induction s) (auto simp: lower_basic_def lower_cp_def LATIN_CAPITAL_LETTER_I_WITH_DOT_ABOVE_def)













section \<open>Termination of the scan\<close>

text \<open>
  A case-sensitive processor with the single keyword \<open>a b\<close>, and two states of the scan
  of the sentence \<open>a ,\<close> with \<open>max_cost = 1\<close>: \<open>word_state\<close> is the state before the
  first round of the outer loop, and \<open>stall_state\<close> the state in which
  \<open>find_longest\<close> enters the inner loop at the space (\<open>idx = 1\<close>, \<open>idy = 2\<close>,
  \<open>current_dict_continued\<close> the dict reached by \<open>a\<close> and the space).
\<close>

definition kp_a_b :: keyword_processor where
  "kp_a_b = snd (add_keyword lower_basic (init True) (ustr ''a b'') (Some (PStr (ustr ''V''))))"

definition stall_state :: scan_state where
  "stall_state =
     \<lparr> keywords_extracted = [],
       current_dict = [Ch 32 [Ch 98 [Kw (PStr (ustr ''V''))]]],
       sequence_start_pos = 0,
       sequence_end_pos = 0,
       reset_current_dict = False,
       idx = 1,
       curr_cost = 1,
       longest_sequence_found = None,
       is_longer_seq_found = False,
       current_dict_continued = [Ch 98 [Kw (PStr (ustr ''V''))]],
       idy = 2 \<rparr>"

lemma kp_a_b_eq:
  "kp_a_b = (init True)\<lparr> keyword_trie_dict := [Ch 97 [Ch 32 [Ch 98 [Kw (PStr (ustr ''V''))]]]],
                           terms_in_trie := 1 \<rparr>"
  by (simp add: kp_a_b_def add_keyword_def setitem_def init_def ustr_def)

definition word_state :: scan_state where
  "word_state =
     \<lparr> keywords_extracted = [],
       current_dict = [Ch 97 [Ch 32 [Ch 98 [Kw (PStr (ustr ''V''))]]]],
       sequence_start_pos = 0,
       sequence_end_pos = 0,
       reset_current_dict = False,
       idx = 0,
       curr_cost = 1,
       longest_sequence_found = None,
       is_longer_seq_found = False,
       current_dict_continued = [],
       idy = 0 \<rparr>"

text \<open>
  C2 (amended). \<open>extract_keywords\<close> terminates for every processor, sentence and
  \<open>max_cost\<close>: both loops of the model are total functions, by the two facts stated
  here. Every round of the outer loop that does not raise moves \<open>idx\<close> forward. A round
  of the inner loop that continues either moves \<open>idy\<close> forward or, in the fuzzy branch
  when the next word is empty, leaves \<open>idy\<close> where it is and moves
  \<open>current_dict_continued\<close> to a non-empty dict strictly below the previous one (to a
  non-empty dict below the root when the previous one was empty), which can only happen
  finitely often.
\<close>

theorem scan_terminates_by_progress:
  "(idx st < length sentence \<and> outer_body limit kp sentence max_cost index_mapping st = Inr st'
      \<longrightarrow> idx st < idx st') \<and>
   (inner_body limit kp sentence st = Inr (Continue st') \<longrightarrow>
      idy st < idy st' \<or>
      idy st' = idy st \<and> current_dict_continued st' \<noteq> [] \<and>
      (current_dict_continued st \<noteq> [] \<longrightarrow>
         size_list size (current_dict_continued st') < size_list size (current_dict_continued st)))"
proof (intro conjI impI)
  assume "idx st < length sentence \<and> outer_body limit kp sentence max_cost index_mapping st = Inr st'"
  then show "idx st < idx st'" using outer_body_idx by blast
next
  assume b: "inner_body limit kp sentence st = Inr (Continue st')"
  from inner_body_progress[OF b]
  show "idy st < idy st' \<or>
        idy st' = idy st \<and> current_dict_continued st' \<noteq> [] \<and>
        (current_dict_continued st \<noteq> [] \<longrightarrow>
           size_list size (current_dict_continued st') < size_list size (current_dict_continued st))"
    by (auto simp: inner_measure_def split: if_splits)
qed

theorem scan_terminates_by_progress_witness:
  "idx word_state < idx (word_state\<lparr> current_dict := [Ch 32 [Ch 98 [Kw (PStr (ustr ''V''))]]], idx := 1 \<rparr>) \<and>
   size_list size [Kw (PStr (ustr ''V''))] < size_list size (current_dict_continued stall_state)"
proof -
  have o: "outer_body 1000 kp_a_b (ustr ''a ,'') 1 None word_state =
             Inr (word_state\<lparr> current_dict := [Ch 32 [Ch 98 [Kw (PStr (ustr ''V''))]]], idx := 1 \<rparr>)"
    by (simp add: outer_body_def match_step_def end_step_def kp_a_b_eq word_state_def init_def
        ustr_def py_index_def Let_def string_digits_def string_ascii_letters_def)
  have l: "idx word_state < length (ustr ''a ,'')" by (simp add: word_state_def ustr_def)
  have i: "inner_body 1000 kp_a_b (ustr ''a ,'') stall_state =
             Inr (Continue (stall_state\<lparr> current_dict_continued := [Kw (PStr (ustr ''V''))] \<rparr>))"
    by (simp add: kp_a_b_eq inner_body_def stall_state_def init_def ustr_def get_next_word_def
        levensthein_def lev_row_def py_index_def stop_crit_def Let_def string_digits_def
        string_ascii_letters_def)
  have ne: "current_dict_continued stall_state \<noteq> []" by (simp add: stall_state_def)
  from scan_terminates_by_progress[where st = word_state and sentence = "ustr ''a ,''"
      and limit = 1000 and kp = kp_a_b and max_cost = 1 and index_mapping = None
      and st' = "word_state\<lparr> current_dict := [Ch 32 [Ch 98 [Kw (PStr (ustr ''V''))]]], idx := 1 \<rparr>"]
    o l
  have a: "idx word_state < idx (word_state\<lparr> current_dict := [Ch 32 [Ch 98 [Kw (PStr (ustr ''V''))]]], idx := 1 \<rparr>)"
    by blast
  from scan_terminates_by_progress[where st = stall_state and sentence = "ustr ''a ,''"
      and limit = 1000 and kp = kp_a_b
      and st' = "stall_state\<lparr> current_dict_continued := [Kw (PStr (ustr ''V''))] \<rparr>"]
    i ne
  have "size_list size [Kw (PStr (ustr ''V''))] < size_list size (current_dict_continued stall_state)"
    by simp
  with a show ?thesis by simp
qed

text \<open>
  C2 as stated fails: in the fuzzy branch of the inner loop the scan position does not
  always advance. In \<open>stall_state\<close> the character \<open>,\<close> is not a key, the next word is
  empty, the fuzzy search returns the child reached by \<open>b\<close> at cost 0, and the round
  continues with \<open>idy\<close> still 2.
\<close>

theorem inner_scan_position_can_stall:
  "inner_body 1000 kp_a_b (ustr ''a ,'') stall_state =
     Inr (Continue (stall_state\<lparr> current_dict_continued := [Kw (PStr (ustr ''V''))] \<rparr>)) \<and>
   idy (stall_state\<lparr> current_dict_continued := [Kw (PStr (ustr ''V''))] \<rparr>) = idy stall_state"
  by (simp add: kp_a_b_eq inner_body_def stall_state_def init_def ustr_def get_next_word_def
      levensthein_def lev_row_def py_index_def stop_crit_def Let_def string_digits_def
      string_ascii_letters_def)

section \<open>Paths of the trie and the scan\<close>

text \<open>
  \<open>descend d w\<close> is the dict reached from \<open>d\<close> along the characters of \<open>w\<close>, if each
  of them is a key on the way.
\<close>

fun descend :: "trie \<Rightarrow> ustring \<Rightarrow> trie option" where
  "descend d [] = Some d"
| "descend d (c # cs) = (case get_ch d c of None \<Rightarrow> None | Some sub \<Rightarrow> descend sub cs)"

lemma lookup_descend:
  "lookup d w = (case descend d w of None \<Rightarrow> None | Some n \<Rightarrow> get_kw n)"
  by (induction w arbitrary: d) (auto split: option.splits)

lemma descend_append:
  "descend d (w @ w') = (case descend d w of None \<Rightarrow> None | Some n \<Rightarrow> descend n w')"
  by (induction w arbitrary: d) (auto split: option.splits)

lemma descend_drop:
  assumes "descend d (drop i w) = Some n" "i < length w"
  shows "\<exists>sub. get_ch d (w ! i) = Some sub \<and> descend sub (drop (Suc i) w) = Some n"
proof -
  have "drop i w = w ! i # drop (Suc i) w" using assms(2) by (simp add: Cons_nth_drop_Suc)
  with assms(1) show ?thesis by (auto split: option.splits)
qed

text \<open>
  The inner loop on a sentence whose rest is a path of the trie that ends in a terminal:
  it follows the path to the end of the sentence and reports the terminal there.
\<close>

lemma inner_loop_follow:
  assumes "descend (current_dict_continued st) (drop (idy st) w) = Some n" "get_kw n = Some v"
    and "idy st \<le> length w"
  shows "inner_loop limit kp w st =
           Inr (st\<lparr> current_dict_continued := n, idy := length w,
                    longest_sequence_found := Some v, sequence_end_pos := length w,
                    is_longer_seq_found := True \<rparr>)"
  using assms
proof (induction limit kp w st rule: inner_loop.induct)
  case (1 limit kp w st)
  show ?case
  proof (cases "idy st < length w")
    case False
    with "1.prems" have "idy st = length w" "current_dict_continued st = n" by simp_all
    with "1.prems"(2) show ?thesis by (simp add: inner_loop.simps[of limit kp w st])
  next
    case True
    from descend_drop[OF "1.prems"(1) True] obtain sub
      where g: "get_ch (current_dict_continued st) (w ! idy st) = Some sub"
        and d: "descend sub (drop (Suc (idy st)) w) = Some n" by blast
    let ?st1 = "if w ! idy st \<notin> non_word_boundaries kp \<and> get_kw (current_dict_continued st) \<noteq> None
                then st\<lparr> longest_sequence_found := get_kw (current_dict_continued st),
                         sequence_end_pos := idy st, is_longer_seq_found := True \<rparr>
                else st"
    let ?st' = "?st1\<lparr> current_dict_continued := sub, idy := idy st + 1 \<rparr>"
    have b: "inner_body limit kp w st = Inr (Continue ?st')"
      unfolding inner_body_unfold[OF True] using g by (simp add: Let_def)
    have u: "inner_loop limit kp w st = inner_loop limit kp w ?st'"
      using True b by (simp add: inner_loop.simps[of limit kp w st])
    have "inner_loop limit kp w ?st' =
            Inr (?st'\<lparr> current_dict_continued := n, idy := length w,
                       longest_sequence_found := Some v, sequence_end_pos := length w,
                       is_longer_seq_found := True \<rparr>)"
      using d True "1.prems"(2) by (intro "1.IH"[OF True b refl]) simp_all
    then show ?thesis unfolding u by simp
  qed
qed

text \<open>
  The scan of a sentence that is a registered pattern, from a state in which nothing has
  been extracted yet and the current dict leads to the terminal of the pattern along the
  rest of the sentence: it extracts the clean name of the pattern over the whole sentence
  and nothing else.
\<close>

lemma scan_registered:
  assumes "descend (current_dict st) (drop (idx st) w) = Some n" "get_kw n = Some v" "truthy v"
    and "idx st < length w" "keywords_extracted st = []" "sequence_start_pos st = 0"
    and "\<not> reset_current_dict st" "get_kw (keyword_trie_dict kp) = None"
    and "get_span_indices 0 (length w) index_mapping = Inr (a, b)"
  shows "\<exists>st'. scan limit kp w max_cost index_mapping st = Inr st' \<and>
               keywords_extracted st' = [(v, a, b)]"
  using assms
proof (induction limit kp w max_cost index_mapping st rule: scan.induct)
  case (1 limit kp w max_cost index_mapping st)
  note lt = "1.prems"(4)
  let ?c = "w ! idx st" and ?cd = "current_dict st"
  have pc: "py_index w (int (idx st)) = Inr ?c" using lt by (simp add: py_index_nat)
  from descend_drop[OF "1.prems"(1) lt] obtain sub
    where g: "get_ch ?cd ?c = Some sub"
      and d: "descend sub (drop (Suc (idx st)) w) = Some n" by blast
  note sc = scan.simps[of limit kp w max_cost index_mapping st]
  show ?case
  proof (cases "?c \<in> non_word_boundaries kp")
    case True
    have m: "match_step limit kp w max_cost index_mapping st = Inr (st\<lparr> current_dict := sub \<rparr>)"
      using True g pc by (simp add: match_step_def Let_def)
    show ?thesis
    proof (cases "idx st + 1 \<ge> length w")
      case e: True
      with lt have "drop (Suc (idx st)) w = []" by simp
      with d have "sub = n" by simp
      let ?st' = "st\<lparr> current_dict := sub, keywords_extracted := [(v, a, b)], idx := idx st + 1 \<rparr>"
      have o: "outer_body limit kp w max_cost index_mapping st = Inr ?st'"
        using m e \<open>sub = n\<close> "1.prems"(2,9,5,6,7)
        by (simp add: outer_body_def end_step_def Let_def)
      have "scan limit kp w max_cost index_mapping ?st' = Inr ?st'"
        by (subst scan.simps) (use e in simp)
      with o lt show ?thesis by (simp add: sc)
    next
      case False
      let ?st' = "st\<lparr> current_dict := sub, idx := idx st + 1 \<rparr>"
      have o: "outer_body limit kp w max_cost index_mapping st = Inr ?st'"
        using m False "1.prems"(7) by (simp add: outer_body_def end_step_def Let_def)
      have "\<exists>st''. scan limit kp w max_cost index_mapping ?st' = Inr st'' \<and>
                    keywords_extracted st'' = [(v, a, b)]"
        using d False "1.prems"(2,3,5,6,7,8,9) by (intro "1.IH"[OF lt o]) simp_all
      with o lt show ?thesis by (simp add: sc)
    qed
  next
    case False
    let ?st2 = "(if get_kw ?cd \<noteq> None
                 then st\<lparr> longest_sequence_found := None, is_longer_seq_found := False,
                          longest_sequence_found := get_kw ?cd, sequence_end_pos := idx st \<rparr>
                 else st\<lparr> longest_sequence_found := None, is_longer_seq_found := False \<rparr>)
                \<lparr> current_dict_continued := sub, idy := idx st + 1 \<rparr>"
    let ?r = "?st2\<lparr> current_dict_continued := n, idy := length w,
                     longest_sequence_found := Some v, sequence_end_pos := length w,
                     is_longer_seq_found := True \<rparr>"
    have il: "inner_loop limit kp w ?st2 = Inr ?r"
      using d "1.prems"(2) lt by (intro inner_loop_follow) simp_all
    have fl: "find_longest limit kp w ?c st = Inr (?r\<lparr> idx := length w \<rparr>)"
      using g il by (simp add: find_longest_def Let_def)
    let ?st4 = "?r\<lparr> idx := length w, current_dict := keyword_trie_dict kp,
                      keywords_extracted := [(v, a, b)], curr_cost := max_cost,
                      reset_current_dict := True \<rparr>"
    have el: "emit_longest kp max_cost index_mapping (?r\<lparr> idx := length w \<rparr>) = Inr ?st4"
      using "1.prems"(3,9,5,6) by (simp add: emit_longest_def Let_def)
    have m: "match_step limit kp w max_cost index_mapping st = Inr ?st4"
      using False g pc fl el by (simp add: match_step_def Let_def)
    let ?st' = "?st4\<lparr> idx := length w + 1, reset_current_dict := False,
                       sequence_start_pos := length w + 1 \<rparr>"
    have o: "outer_body limit kp w max_cost index_mapping st = Inr ?st'"
      using m "1.prems"(8) by (simp add: outer_body_def end_step_def Let_def)
    have "scan limit kp w max_cost index_mapping ?st' = Inr ?st'"
      by (subst scan.simps) simp
    with o lt show ?thesis by (simp add: sc)
  qed
qed

text \<open>
  A registered pattern is extractable: given as the sentence, \<open>extract_keywords\<close>
  returns its clean name and nothing else.
\<close>

lemma extract_registered:
  assumes reg: "get_keyword lower kp q = Some v" and tr: "truthy v"
    and ne: "q \<noteq> []" "fold_case lower kp q \<noteq> []"
    and root: "get_kw (keyword_trie_dict kp) = None"
    and low: "\<not> case_sensitive kp \<longrightarrow>
                length (lower q) = length q + count_list q LATIN_CAPITAL_LETTER_I_WITH_DOT_ABOVE"
  shows "extract_keywords limit lower kp q False max_cost = Inr [Name v]"
proof -
  let ?w = "fold_case lower kp q"
  let ?im = "get_index_mapping q (case_sensitive kp)"
  have w: "?w = (if \<not> case_sensitive kp then lower q else q)" by (simp add: fold_case_def)
  have ok: "span_ok ?im (length ?w)"
  proof (cases ?im)
    case None
    then show ?thesis by (simp add: span_ok_def)
  next
    case (Some im)
    then have "\<not> case_sensitive kp" by (auto simp: get_index_mapping_def split: if_splits)
    with get_index_mapping_length[OF Some] low Some show ?thesis
      by (simp add: span_ok_def fold_case_def)
  qed
  from get_span_indices_ok[OF ok, of 0 "length ?w"] ne(2) obtain a b
    where sp: "get_span_indices 0 (length ?w) ?im = Inr (a, b)" by auto
  from reg obtain n where d: "descend (keyword_trie_dict kp) ?w = Some n" and k: "get_kw n = Some v"
    by (auto simp: get_keyword_lookup lookup_descend split: option.splits)
  define st0 where "st0 =
      \<lparr> keywords_extracted = [], current_dict = keyword_trie_dict kp, sequence_start_pos = 0,
        sequence_end_pos = 0, reset_current_dict = False, idx = 0, curr_cost = max_cost,
        longest_sequence_found = None, is_longer_seq_found = False,
        current_dict_continued = [], idy = 0 \<rparr>"
  have "\<exists>st'. scan limit kp ?w max_cost ?im st0 = Inr st' \<and> keywords_extracted st' = [(v, a, b)]"
    using d k tr ne(2) root sp by (intro scan_registered[where n = n]) (simp_all add: st0_def)
  then obtain st' where "scan limit kp ?w max_cost ?im st0 = Inr st'"
    "keywords_extracted st' = [(v, a, b)]" by blast
  then show ?thesis
    using ne(1) unfolding extract_keywords_def Let_def st0_def w[symmetric] by simp
qed


section \<open>Removing keywords\<close>

lemma lookup_empty: "lookup d [] = get_kw d"
  by simp

text \<open>
  C4. \<open>remove_keyword\<close> on a registered pattern \<open>p\<close> returns \<open>True\<close>; afterwards
  \<open>get_keyword p\<close> is \<open>None\<close>, and every pattern \<open>q\<close> that folds to another path than
  \<open>p\<close> has the clean name it had before, whether or not it shares a prefix with \<open>p\<close>,
  and is still extractable: \<open>extract_keywords\<close> on \<open>q\<close> itself returns that clean name.
  On a pattern that is not registered \<open>remove_keyword\<close> returns \<open>False\<close> and the
  processor unchanged. For the extraction the root dict holds no clean name (the empty
  pattern is never registered, \<open>add_keyword\<close> refuses it), and \<open>str.lower\<close> lengthens
  the sentence by one position for each LATIN CAPITAL LETTER I WITH DOT ABOVE only.
\<close>

theorem remove_keyword_correct:
  "(p \<noteq> [] \<and> get_keyword lower kp p \<noteq> None \<longrightarrow>
      fst (remove_keyword lower kp p) \<and>
      get_keyword lower (snd (remove_keyword lower kp p)) p = None \<and>
      (fold_case lower kp q \<noteq> fold_case lower kp p \<longrightarrow>
         get_keyword lower (snd (remove_keyword lower kp p)) q = get_keyword lower kp q \<and>
         (get_keyword lower kp q = Some v \<and> truthy v \<and> q \<noteq> [] \<and> fold_case lower kp q \<noteq> [] \<and>
          get_kw (keyword_trie_dict kp) = None \<and>
          (\<not> case_sensitive kp \<longrightarrow>
             length (lower q) = length q + count_list q LATIN_CAPITAL_LETTER_I_WITH_DOT_ABOVE) \<longrightarrow>
            extract_keywords limit lower (snd (remove_keyword lower kp p)) q False max_cost =
              Inr [Name v]))) \<and>
   (get_keyword lower kp p = None \<longrightarrow> remove_keyword lower kp p = (False, kp))"
proof (intro conjI impI)
  assume "get_keyword lower kp p = None"
  then show "remove_keyword lower kp p = (False, kp)"
    by (simp add: remove_keyword_def delitem_eq get_keyword_lookup)
next
  assume a: "p \<noteq> [] \<and> get_keyword lower kp p \<noteq> None"
  let ?d = "keyword_trie_dict kp"
  let ?kp' = "snd (remove_keyword lower kp p)"
  from a have reg: "lookup ?d (fold_case lower kp p) \<noteq> None" by (simp add: get_keyword_lookup)
  have kp': "?kp' = kp\<lparr> keyword_trie_dict := fst (del_rec ?d (fold_case lower kp p)),
                          terms_in_trie := terms_in_trie kp - 1 \<rparr>"
    using a reg by (simp add: remove_keyword_def delitem_eq)
  have fc: "fold_case lower ?kp' = fold_case lower kp"
    by (simp add: kp' fold_case_def fun_eq_iff)
  have g: "get_keyword lower ?kp' x =
             (if fold_case lower kp x = fold_case lower kp p then None else get_keyword lower kp x)"
    for x
    unfolding get_keyword_lookup fc by (simp add: kp' lookup_del_rec[OF reg])
  show "fst (remove_keyword lower kp p)"
    using a reg by (simp add: remove_keyword_def delitem_eq)
  show "get_keyword lower ?kp' p = None" by (simp add: g)
  assume other: "fold_case lower kp q \<noteq> fold_case lower kp p"
  show same: "get_keyword lower ?kp' q = get_keyword lower kp q" using other by (simp add: g)
  assume b: "get_keyword lower kp q = Some v \<and> truthy v \<and> q \<noteq> [] \<and> fold_case lower kp q \<noteq> [] \<and>
             get_kw (keyword_trie_dict kp) = None \<and>
             (\<not> case_sensitive kp \<longrightarrow>
                length (lower q) = length q + count_list q LATIN_CAPITAL_LETTER_I_WITH_DOT_ABOVE)"
  have root: "get_kw (keyword_trie_dict ?kp') = None"
    using lookup_del_rec[OF reg, of "[]"] b by (simp add: kp')
  have cs: "case_sensitive ?kp' = case_sensitive kp" by (simp add: kp')
  show "extract_keywords limit lower ?kp' q False max_cost = Inr [Name v]"
    using b same root by (intro extract_registered) (simp_all add: fc cs)
qed

theorem remove_keyword_correct_witness:
  "fst (remove_keyword lower_basic
          (snd (add_keyword lower_basic
                 (snd (add_keyword lower_basic (init False) (ustr ''ab'') (Some (PStr (ustr ''B'')))))
                 (ustr ''ac'') (Some (PStr (ustr ''C'')))))
          (ustr ''ab'')) \<and>
   get_keyword lower_basic
     (snd (remove_keyword lower_basic
          (snd (add_keyword lower_basic
                 (snd (add_keyword lower_basic (init False) (ustr ''ab'') (Some (PStr (ustr ''B'')))))
                 (ustr ''ac'') (Some (PStr (ustr ''C'')))))
          (ustr ''ab'')))
     (ustr ''ac'') = Some (PStr (ustr ''C'')) \<and>
   extract_keywords 1000 lower_basic
     (snd (remove_keyword lower_basic
          (snd (add_keyword lower_basic
                 (snd (add_keyword lower_basic (init False) (ustr ''ab'') (Some (PStr (ustr ''B'')))))
                 (ustr ''ac'') (Some (PStr (ustr ''C'')))))
          (ustr ''ab'')))
     (ustr ''ac'') False 0 = Inr [Name (PStr (ustr ''C''))]"
proof -
  let ?kp = "snd (add_keyword lower_basic
                 (snd (add_keyword lower_basic (init False) (ustr ''ab'') (Some (PStr (ustr ''B'')))))
                 (ustr ''ac'') (Some (PStr (ustr ''C''))))"
  have k: "?kp = (init False)\<lparr> keyword_trie_dict :=
                     [Ch 97 [Ch 98 [Kw (PStr (ustr ''B''))], Ch 99 [Kw (PStr (ustr ''C''))]]],
                   terms_in_trie := 2 \<rparr>"
    by (simp add: add_keyword_def setitem_def init_def ustr_def lower_basic_def lower_cp_def)
  have h: "ustr ''ab'' \<noteq> []" "get_keyword lower_basic ?kp (ustr ''ab'') \<noteq> None"
    "fold_case lower_basic ?kp (ustr ''ac'') \<noteq> fold_case lower_basic ?kp (ustr ''ab'')"
    "get_keyword lower_basic ?kp (ustr ''ac'') = Some (PStr (ustr ''C''))"
    "truthy (PStr (ustr ''C''))" "ustr ''ac'' \<noteq> []" "fold_case lower_basic ?kp (ustr ''ac'') \<noteq> []"
    "get_kw (keyword_trie_dict ?kp) = None"
    unfolding k
    by (simp_all add: get_keyword_def getitem_def fold_case_def init_def ustr_def lower_basic_def
        lower_cp_def)
  from remove_keyword_correct[of "ustr ''ab''" lower_basic ?kp "ustr ''ac''" "PStr (ustr ''C'')"
      1000 0] h
  show ?thesis by (simp add: lower_basic_length)
qed

section \<open>The index mapping\<close>

text \<open>
  \<open>folded_start s i\<close> is the position at which the image of the character \<open>s[i]\<close>
  starts in the lower-cased sentence, when lower-casing turns LATIN CAPITAL LETTER I WITH
  DOT ABOVE into two characters and every other character into one; for \<open>i = len(s)\<close>
  it is the length of the lower-cased sentence.
\<close>

definition folded_start :: "ustring \<Rightarrow> nat \<Rightarrow> nat" where
  "folded_start s i = i + count_list (take i s) LATIN_CAPITAL_LETTER_I_WITH_DOT_ABOVE"

definition offsets :: "ustring \<Rightarrow> nat list" where
  "offsets s = fold (\<lambda>(idx, char) offsets.
                        (if char = LATIN_CAPITAL_LETTER_I_WITH_DOT_ABOVE
                         then offsets @ [idx] else offsets) @ [idx])
                    (enumerate 0 s) []"




lemma folded_start_Suc:
  "i < length s \<Longrightarrow>
     folded_start s (Suc i) =
       folded_start s i + (if s ! i = LATIN_CAPITAL_LETTER_I_WITH_DOT_ABOVE then 2 else 1)"
  by (simp add: folded_start_def take_Suc_conv_app_nth)













end
